theory Spec2Isabelle
  imports Main "HOL-Library.Sublist" "HOL-Library.AList"
begin

section \<open>Python string primitives\<close>

text \<open>
  The script \<^verbatim>\<open>scripts/validate_versions.py\<close> works on Python \<^verbatim>\<open>str\<close> values. A string is
  modelled as a \<^typ>\<open>string\<close>, each \<^typ>\<open>char\<close> standing for one code point below 256.
  On these code points \<^verbatim>\<open>str.isspace\<close>, \<^verbatim>\<open>str.strip()\<close> and the regular expression class
  \<^verbatim>\<open>\s\<close> agree on the twelve characters listed in \<open>isspace\<close>.
\<close>

definition isspace :: "char \<Rightarrow> bool" where
  "isspace c = (c \<in> set [CHR 0x09, CHR 0x0A, CHR 0x0B, CHR 0x0C, CHR 0x0D,
                           CHR 0x1C, CHR 0x1D, CHR 0x1E, CHR 0x1F, CHR 0x20,
                           CHR 0x85, CHR 0xA0])"

text \<open>\<^verbatim>\<open>s.strip()\<close>: leading and trailing whitespace removed.\<close>

definition strip :: "string \<Rightarrow> string" where
  "strip s = rev (dropWhile isspace (rev (dropWhile isspace s)))"

text \<open>\<^verbatim>\<open>sub in s\<close>: some position of \<open>s\<close> starts with \<open>sub\<close>.\<close>

fun str_contains :: "string \<Rightarrow> string \<Rightarrow> bool" where
  "str_contains sub [] = (sub = [])"
| "str_contains sub (c # cs) = (prefix sub (c # cs) \<or> str_contains sub cs)"

text \<open>
  \<^verbatim>\<open>s.replace(old, new)\<close>: every occurrence of \<open>old\<close>, found from left to right without
  overlap, is replaced. With an empty \<open>old\<close> Python inserts \<open>new\<close> around every character.
\<close>

function str_replace :: "string \<Rightarrow> string \<Rightarrow> string \<Rightarrow> string" where
  "str_replace old new [] = (if old = [] then new else [])"
| "str_replace old new (c # cs) =
     (if old = [] then new @ c # str_replace old new cs
      else if prefix old (c # cs) then new @ str_replace old new (drop (length old) (c # cs))
      else c # str_replace old new cs)"
  by pat_completeness auto
termination
  by (relation "measure (\<lambda>(old, new, s). length s)") auto

text \<open>
  \<^verbatim>\<open>s.split(sep)\<close>: the pieces between the occurrences of \<open>sep\<close>, found from left to right
  without overlap; \<open>cur\<close> holds the current piece, reversed. Python raises \<^verbatim>\<open>ValueError\<close> on
  an empty separator; the script only splits on the literals \<^verbatim>\<open>'github.com/'\<close> and \<^verbatim>\<open>'/'\<close>.
\<close>

function split_from :: "string \<Rightarrow> string \<Rightarrow> string \<Rightarrow> string list" where
  "split_from sep cur [] = [rev cur]"
| "split_from sep cur (c # cs) =
     (if sep \<noteq> [] \<and> prefix sep (c # cs)
      then rev cur # split_from sep [] (drop (length sep) (c # cs))
      else split_from sep (c # cur) cs)"
  by pat_completeness auto
termination
  by (relation "measure (\<lambda>(sep, cur, s). length s)") auto

definition str_split :: "string \<Rightarrow> string \<Rightarrow> string list" where
  "str_split sep s = split_from sep [] s"

text \<open>\<^verbatim>\<open>s.endswith(suf)\<close>.\<close>

definition endswith :: "string \<Rightarrow> string \<Rightarrow> bool" where
  "endswith s suf = suffix suf s"

text \<open>
  \<^verbatim>\<open>s.splitlines()\<close>: lines are ended by \<^verbatim>\<open>\n\<close>, \<^verbatim>\<open>\r\<close>, \<^verbatim>\<open>\r\n\<close>, \<^verbatim>\<open>\v\<close>, \<^verbatim>\<open>\f\<close>,
  \<^verbatim>\<open>\x1c\<close>, \<^verbatim>\<open>\x1d\<close>, \<^verbatim>\<open>\x1e\<close> and \<^verbatim>\<open>\x85\<close>; the line ends are dropped and a final
  line end opens no further line.
\<close>

definition is_linebreak :: "char \<Rightarrow> bool" where
  "is_linebreak c = (c \<in> set [CHR 0x0A, CHR 0x0B, CHR 0x0C, CHR 0x0D,
                                CHR 0x1C, CHR 0x1D, CHR 0x1E, CHR 0x85])"

fun splitlines_from :: "string \<Rightarrow> string \<Rightarrow> string list" where
  "splitlines_from cur [] = (if cur = [] then [] else [rev cur])"
| "splitlines_from cur [c] = (if is_linebreak c then [rev cur] else [rev (c # cur)])"
| "splitlines_from cur (c # d # cs) =
     (if c = CHR 0x0D \<and> d = CHR 0x0A then rev cur # splitlines_from [] cs
      else if is_linebreak c then rev cur # splitlines_from [] (d # cs)
      else splitlines_from (c # cur) (d # cs))"

definition splitlines :: "string \<Rightarrow> string list" where
  "splitlines s = splitlines_from [] s"

text \<open>\<^verbatim>\<open>str(n)\<close> for a count \<open>n\<close>, as an f-string renders it: the decimal digits.\<close>

definition digit :: "nat \<Rightarrow> char" where
  "digit d = char_of (of_char (CHR ''0'') + d)"

fun str_nat :: "nat \<Rightarrow> string" where
  "str_nat n = (if 10 \<le> n then str_nat (n div 10) @ [digit (n mod 10)] else [digit n])"

section \<open>The regular expressions of the script\<close>

text \<open>
  The three patterns of the script use literals, the classes \<^verbatim>\<open>\s\<close>, \<^verbatim>\<open>[^\s]\<close> and \<^verbatim>\<open>.\<close>
  under \<^verbatim>\<open>*\<close>, \<^verbatim>\<open>+\<close> and \<^verbatim>\<open>+?\<close>, capture groups and \<^verbatim>\<open>$\<close>. \<open>matches r s gs\<close> lists, in
  the order in which a backtracking matcher tries them, the ways \<open>r\<close> can match at the
  start of \<open>s\<close>: each is the text left after the match and the groups captured so far.
  A greedy repetition tries the longest run first, a lazy one the shortest.
\<close>

datatype regex =
    Lit string
  | Star "char \<Rightarrow> bool"
  | Plus "char \<Rightarrow> bool"
  | LazyPlus "char \<Rightarrow> bool"
  | Group regex
  | Cat regex regex
  | Eos

fun matches :: "regex \<Rightarrow> string \<Rightarrow> string list \<Rightarrow> (string \<times> string list) list" where
  "matches (Lit w) s gs = (if prefix w s then [(drop (length w) s, gs)] else [])"
| "matches (Star p) s gs =
     map (\<lambda>k. (drop k s, gs)) (rev [0..<Suc (length (takeWhile p s))])"
| "matches (Plus p) s gs =
     map (\<lambda>k. (drop k s, gs)) (rev [1..<Suc (length (takeWhile p s))])"
| "matches (LazyPlus p) s gs =
     map (\<lambda>k. (drop k s, gs)) [1..<Suc (length (takeWhile p s))]"
| "matches (Group r) s gs =
     map (\<lambda>(s', gs'). (s', gs' @ [take (length s - length s') s])) (matches r s gs)"
| "matches (Cat a b) s gs = concat (map (\<lambda>(s', gs'). matches b s' gs') (matches a s gs))"
| "matches Eos s gs = (if s = [] \<or> s = [CHR 0x0A] then [(s, gs)] else [])"

text \<open>The match at one start position is the first way found.\<close>

definition match_here :: "regex \<Rightarrow> string \<Rightarrow> (string \<times> string list) option" where
  "match_here r s = (case matches r s [] of [] \<Rightarrow> None | m # _ \<Rightarrow> Some m)"

text \<open>\<^verbatim>\<open>re.search\<close>: the match at the leftmost start position that has one.\<close>

fun re_search :: "regex \<Rightarrow> string \<Rightarrow> (string \<times> string list) option" where
  "re_search r [] = match_here r []"
| "re_search r (c # cs) =
     (case match_here r (c # cs) of Some m \<Rightarrow> Some m | None \<Rightarrow> re_search r cs)"

text \<open>
  \<^verbatim>\<open>pattern.finditer\<close>: the start positions are tried from left to right; after a match
  the positions it covers are skipped (\<open>n\<close> counts the characters still to skip), so the
  matches do not overlap.
\<close>

fun finditer_from :: "regex \<Rightarrow> nat \<Rightarrow> string \<Rightarrow> string list list" where
  "finditer_from r n [] =
     (case match_here r [] of Some (rest, gs) \<Rightarrow> [gs] | None \<Rightarrow> [])"
| "finditer_from r n (c # cs) =
     (if 0 < n then finditer_from r (n - 1) cs
      else (case match_here r (c # cs) of
              None \<Rightarrow> finditer_from r 0 cs
            | Some (rest, gs) \<Rightarrow>
                gs # finditer_from r (length (c # cs) - length rest - 1) cs))"

definition finditer :: "regex \<Rightarrow> string \<Rightarrow> string list list" where
  "finditer r s = finditer_from r 0 s"

text \<open>\<^verbatim>\<open>.\<close> matches every character but the line feed; \<^verbatim>\<open>[^\s]\<close> is the complement of \<^verbatim>\<open>\s\<close>.\<close>

definition re_dot :: "char \<Rightarrow> bool" where
  "re_dot c = (c \<noteq> CHR 0x0A)"

definition re_nonspace :: "char \<Rightarrow> bool" where
  "re_nonspace c = (\<not> isspace c)"

text \<open>\<^verbatim>\<open>r'repo:\s+(.+)$'\<close>\<close>

definition repo_pattern :: regex where
  "repo_pattern = Cat (Lit ''repo:'') (Cat (Plus isspace) (Cat (Group (Plus re_dot)) Eos))"

text \<open>\<^verbatim>\<open>r'rev:\s+([^\s]+)'\<close>\<close>

definition rev_pattern :: regex where
  "rev_pattern = Cat (Lit ''rev:'') (Cat (Plus isspace) (Group (Plus re_nonspace)))"

text \<open>\<^verbatim>\<open>r'repo:\s+(.+?)\s*\n\s*rev:\s+([^\s]+)'\<close>\<close>

definition block_pattern :: regex where
  "block_pattern =
     Cat (Lit ''repo:'') (Cat (Plus isspace) (Cat (Group (LazyPlus re_dot))
    (Cat (Star isspace) (Cat (Lit [CHR 0x0A]) (Cat (Star isspace)
    (Cat (Lit ''rev:'') (Cat (Plus isspace) (Group (Plus re_nonspace)))))))))"

section \<open>Identity normalization\<close>

text \<open>
  \<^verbatim>\<open>
  def normalize_repo_url(url: str) -> str:
      url = url.strip().replace('.git', '')
      if 'github.com/' in url:
          return url.split('github.com/')[-1]
      return url.split('/')[-1]
  \<close>
  \<^verbatim>\<open>split\<close> never returns an empty list, so \<^verbatim>\<open>[-1]\<close> is its last piece.
\<close>

definition normalize_repo_url :: "string \<Rightarrow> string" where
  "normalize_repo_url url0 =
     (let url = str_replace ''.git'' '''' (strip url0) in
      if str_contains ''github.com/'' url then last (str_split ''github.com/'' url)
      else last (str_split ''/'' url))"

section \<open>The config parser\<close>

text \<open>
  A Python \<^verbatim>\<open>dict\<close> keeps its keys in insertion order; storing under a key that is present
  overwrites the value in place. This is an association list under \<^const>\<open>AList.update\<close>.
\<close>

type_synonym dict = "(string \<times> string) list"

definition dict_get :: "dict \<Rightarrow> string \<Rightarrow> string option" where
  "dict_get d k = map_of d k"

definition dict_set :: "dict \<Rightarrow> string \<Rightarrow> string \<Rightarrow> dict" where
  "dict_set d k v = AList.update k v d"

definition dict_keys :: "dict \<Rightarrow> string list" where
  "dict_keys d = map fst d"

text \<open>Python's truth value of a variable that holds \<^verbatim>\<open>None\<close> or a string.\<close>

definition truthy :: "string option \<Rightarrow> bool" where
  "truthy v = (case v of None \<Rightarrow> False | Some s \<Rightarrow> s \<noteq> [])"

text \<open>
  One turn of the loop over the lines of the config: the state is \<^verbatim>\<open>current_repo\<close>
  and \<^verbatim>\<open>tools\<close>. \<^verbatim>\<open>group(1)\<close> is the first captured group: a match of either pattern has
  captured exactly one group (\<open>repo_search_group\<close>, \<open>rev_search_group\<close> below).
  \<^verbatim>\<open>
      line = line.strip()
      repo_match = re.search(r'repo:\s+(.+)$', line)
      if repo_match:
          current_repo = normalize_repo_url(repo_match.group(1))
          continue
      if current_repo:
          rev_match = re.search(r'rev:\s+([^\s]+)', line)
          if rev_match:
              tools[current_repo] = rev_match.group(1)
              current_repo = None
  \<close>
\<close>

fun parse_line :: "string option \<times> dict \<Rightarrow> string \<Rightarrow> string option \<times> dict" where
  "parse_line (current_repo, tools) raw =
     (let line = strip raw in
      case re_search repo_pattern line of
        Some repo_match \<Rightarrow> (Some (normalize_repo_url (snd repo_match ! 0)), tools)
      | None \<Rightarrow>
          (case current_repo of
             None \<Rightarrow> (current_repo, tools)
           | Some repo \<Rightarrow>
               if repo = [] then (current_repo, tools)
               else (case re_search rev_pattern line of
                       Some rev_match \<Rightarrow> (None, dict_set tools repo (snd rev_match ! 0))
                     | None \<Rightarrow> (current_repo, tools))))"

definition parse_lines :: "string option \<times> dict \<Rightarrow> string list \<Rightarrow> string option \<times> dict" where
  "parse_lines st ls = foldl parse_line st ls"

text \<open>The parse of the text of a config file that exists.\<close>

definition parse_config_text :: "string \<Rightarrow> dict" where
  "parse_config_text content = snd (parse_lines (None, []) (splitlines content))"

text \<open>
  \<^verbatim>\<open>parse_pre_commit_config\<close>: the file is given by the rendering of its path and by its
  text, \<open>None\<close> when it does not exist; then the function prints and leaves the process
  with status 1 (\<open>Inl\<close> carries what was printed and the status).
\<close>

definition parse_pre_commit_config ::
  "string \<Rightarrow> string option \<Rightarrow> (string list \<times> nat) + dict" where
  "parse_pre_commit_config file_path file =
     (case file of
        None \<Rightarrow> Inl ([''Error: Config file not found at '' @ file_path], 1)
      | Some content \<Rightarrow> Inr (parse_config_text content))"

section \<open>The document scanner\<close>

text \<open>
  A usage record is \<^verbatim>\<open>(md_file, repo_key, rev)\<close>. A guide file is given by its path (as
  the diagnostics print it, relative to the project root) and its text; the list of the
  guide files is in the order of the directory walk. A match of the block pattern has
  captured its two groups (\<open>finditer_block_groups\<close> below).
\<close>

type_synonym usage = "string \<times> string \<times> string"

definition scan_text :: "string \<Rightarrow> string \<Rightarrow> usage list" where
  "scan_text md_file content =
     map (\<lambda>gs. (md_file, normalize_repo_url (strip (gs ! 0)), strip (gs ! 1)))
       (finditer block_pattern content)"

definition scan_markdown_files :: "(string \<times> string) list \<Rightarrow> usage list" where
  "scan_markdown_files files = concat (map (\<lambda>(md_file, content). scan_text md_file content) files)"

section \<open>The reconciler and the run\<close>

text \<open>An uncaught Python exception ends the run with a traceback and status 1.\<close>

datatype error = KeyError

definition dict_item :: "dict \<Rightarrow> string \<Rightarrow> error + string" where
  "dict_item d k = (case map_of d k of None \<Rightarrow> Inl KeyError | Some v \<Rightarrow> Inr v)"

text \<open>
  \<^verbatim>\<open>
      possible_match = None
      for c_repo in canonical_versions:
          if repo_key.endswith(c_repo) or c_repo.endswith(repo_key):
              possible_match = c_repo
              break
  \<close>
\<close>

fun possible_match :: "string list \<Rightarrow> string \<Rightarrow> string option" where
  "possible_match [] repo_key = None"
| "possible_match (c_repo # cs) repo_key =
     (if endswith repo_key c_repo \<or> endswith c_repo repo_key then Some c_repo
      else possible_match cs repo_key)"

definition mismatch_lines :: "string \<Rightarrow> string \<Rightarrow> string \<Rightarrow> string \<Rightarrow> string list" where
  "mismatch_lines file_path repo_key rv canonical_rev =
     [''MISMATCH in '' @ file_path @ '':'',
      ''  Tool: '' @ repo_key,
      ''  Guide says:  '' @ rv,
      ''  Config has:  '' @ canonical_rev]"

definition fuzzy_lines ::
  "string \<Rightarrow> string \<Rightarrow> string \<Rightarrow> string \<Rightarrow> string \<Rightarrow> string list" where
  "fuzzy_lines file_path repo_key c_repo rv c_rev =
     [''MISMATCH (fuzzy match) in '' @ file_path @ '':'',
      ''  Tool: '' @ repo_key @ '' (~= '' @ c_repo @ '')'',
      ''  Guide says:  '' @ rv,
      ''  Config has:  '' @ c_rev]"

text \<open>
  One turn of the loop over the usages. The state is what has been printed, \<^verbatim>\<open>errors\<close>
  and \<^verbatim>\<open>warnings\<close>; \<open>rv\<close> is the usage's \<^verbatim>\<open>rev\<close>. \<^verbatim>\<open>canonical_versions[possible_match]\<close>
  raises \<^verbatim>\<open>KeyError\<close> on a key that is absent.
\<close>

type_synonym report = "string list \<times> nat \<times> nat"

fun reconcile_usage :: "dict \<Rightarrow> report \<Rightarrow> usage \<Rightarrow> error + report" where
  "reconcile_usage canonical_versions (out, errors, warnings) (file_path, repo_key, rv) =
     (let canonical_rev = dict_get canonical_versions repo_key in
      if truthy canonical_rev then
        (if Some rv \<noteq> canonical_rev
         then Inr (out @ mismatch_lines file_path repo_key rv (the canonical_rev),
                   errors + 1, warnings)
         else Inr (out, errors, warnings))
      else
        (let pm = possible_match (dict_keys canonical_versions) repo_key in
         if truthy pm then
           (case dict_item canonical_versions (the pm) of
              Inl e \<Rightarrow> Inl e
            | Inr c_rev \<Rightarrow>
                if rv \<noteq> c_rev
                then Inr (out @ fuzzy_lines file_path repo_key (the pm) rv c_rev,
                          errors + 1, warnings)
                else Inr (out, errors, warnings))
         else Inr (out, errors, warnings + 1)))"

fun reconcile :: "dict \<Rightarrow> report \<Rightarrow> usage list \<Rightarrow> error + report" where
  "reconcile canonical_versions st [] = Inr st"
| "reconcile canonical_versions st (u # us) =
     (case reconcile_usage canonical_versions st u of
        Inl e \<Rightarrow> Inl e
      | Inr st' \<Rightarrow> reconcile canonical_versions st' us)"

text \<open>The summary after the loop, and the exit status of the process.\<close>

fun summary :: "report \<Rightarrow> string list \<times> nat" where
  "summary (out, errors, warnings) =
     (if errors = 0 then
        (out @ [CHR 0x0A # ''SUCCESS: All guide versions match the canonical configuration.'']
           @ (if 0 < warnings
              then [''(Ignored '' @ str_nat warnings
                      @ '' tools present in guides but not in config)'']
              else []),
         0)
      else
        (out @ [CHR 0x0A # ''FAILURE: Found '' @ str_nat errors @ '' version mismatches.''],
         1))"

text \<open>
  \<^verbatim>\<open>main\<close>: \<open>config_path\<close> is the rendering of \<^verbatim>\<open>CONFIG_FILE\<close>, \<open>config\<close> the text of that
  file if it exists, \<open>guides\<close> the \<^verbatim>\<open>.md\<close> files under \<^verbatim>\<open>GUIDES_DIR\<close>. The result is what
  was printed and the exit status.
\<close>

definition main :: "string \<Rightarrow> string option \<Rightarrow> (string \<times> string) list \<Rightarrow> string list \<times> nat" where
  "main config_path config guides =
     (let out0 = [''Validating versions against configs/pre-commit/.pre-commit-config.yaml...''] in
      case parse_pre_commit_config config_path config of
        Inl (msgs, status) \<Rightarrow> (out0 @ msgs, status)
      | Inr canonical_versions \<Rightarrow>
          if canonical_versions = [] then (out0 @ [''No versions found in config file.''], 1)
          else
            (let out1 = out0 @ [''Loaded '' @ str_nat (length canonical_versions)
                                  @ '' canonical tool versions.''];
                 usage_matches = scan_markdown_files guides;
                 out2 = out1 @ [''Found '' @ str_nat (length usage_matches)
                                  @ '' version references in guides.'']
             in case reconcile canonical_versions (out2, 0, 0) usage_matches of
                  Inl e \<Rightarrow> (out2, 1)
                | Inr st \<Rightarrow> summary st))"

section \<open>Reference definitions\<close>

text \<open>
  The normalization as the specification words it: strip a trailing \<^verbatim>\<open>.git\<close> (and only a
  trailing one), then return the text after the hosting-site marker if it is present,
  otherwise the text after the last path separator.
\<close>

definition strip_git_suffix :: "string \<Rightarrow> string" where
  "strip_git_suffix s = (if suffix ''.git'' s then take (length s - 4) s else s)"

definition normalize_reference :: "string \<Rightarrow> string" where
  "normalize_reference r =
     (let url = strip_git_suffix r in
      if str_contains ''github.com/'' url then last (str_split ''github.com/'' url)
      else last (str_split ''/'' url))"

section \<open>The lines of the config\<close>

text \<open>
  A repository-reference line is a line in which the loop finds \<^verbatim>\<open>repo_match\<close>; its reference
  is \<^verbatim>\<open>repo_match.group(1)\<close>. A revision line is a line that is no repository-reference
  line and in which \<^verbatim>\<open>rev_match\<close> is found; its token is \<^verbatim>\<open>rev_match.group(1)\<close>.
\<close>

definition repo_line :: "string \<Rightarrow> string option" where
  "repo_line raw = map_option (\<lambda>m. snd m ! 0) (re_search repo_pattern (strip raw))"

definition rev_line :: "string \<Rightarrow> string option" where
  "rev_line raw =
     (case re_search repo_pattern (strip raw) of
        Some m \<Rightarrow> None
      | None \<Rightarrow> map_option (\<lambda>m. snd m ! 0) (re_search rev_pattern (strip raw)))"

section \<open>Well-formed canonical maps\<close>

text \<open>
  What the config parser guarantees of the map it builds: the keys are distinct and not
  empty, the revisions are not empty and hold no whitespace.
\<close>

definition wf_canonical :: "dict \<Rightarrow> bool" where
  "wf_canonical d \<longleftrightarrow>
     distinct (map fst d) \<and>
     (\<forall>e\<in>set d. fst e \<noteq> [] \<and> snd e \<noteq> [] \<and> (\<forall>c\<in>set (snd e). \<not> isspace c))"

section \<open>Resolution of a usage\<close>

text \<open>
  The fallback branch of the reconciler is the \<^verbatim>\<open>else\<close> of \<^verbatim>\<open>if canonical_rev:\<close>.
\<close>

definition fuzzy_attempted :: "dict \<Rightarrow> string \<Rightarrow> bool" where
  "fuzzy_attempted canonical_versions repo_key = (\<not> truthy (dict_get canonical_versions repo_key))"

text \<open>
  The fuzzy candidate of an identity is the first key of the map, in its order, such that
  one of the two is a suffix of the other. The canonical revision a usage is held against
  is the one of its own identity if that is a key, otherwise the one of its fuzzy
  candidate, if there is one.
\<close>

definition fuzzy_candidate :: "dict \<Rightarrow> string \<Rightarrow> string option" where
  "fuzzy_candidate d k = List.find (\<lambda>c. suffix c k \<or> suffix k c) (dict_keys d)"

definition resolved_rev :: "dict \<Rightarrow> string \<Rightarrow> string option" where
  "resolved_rev d k =
     (case map_of d k of
        Some crev \<Rightarrow> Some crev
      | None \<Rightarrow> (case fuzzy_candidate d k of None \<Rightarrow> None | Some c \<Rightarrow> map_of d c))"

text \<open>
  A usage is mismatched when its revision differs from the canonical revision it is held
  against, and unresolved when there is none.
\<close>

definition mismatched :: "dict \<Rightarrow> usage \<Rightarrow> bool" where
  "mismatched d u = (case resolved_rev d (fst (snd u)) of None \<Rightarrow> False | Some crev \<Rightarrow> snd (snd u) \<noteq> crev)"

definition unresolved :: "dict \<Rightarrow> usage \<Rightarrow> bool" where
  "unresolved d u = (resolved_rev d (fst (snd u)) = None)"

section \<open>Blocks of a document\<close>

text \<open>
  The first of the ways a matcher lists.
\<close>

definition first_of :: "'a list \<Rightarrow> 'a option" where
  "first_of xs = (case xs of [] \<Rightarrow> None | x # _ \<Rightarrow> Some x)"

text \<open>
  The block pattern is \<^verbatim>\<open>repo:\<close>, whitespace and then the value pattern; the value
  pattern is the captured reference value and then the gap pattern; the gap pattern is
  \<^verbatim>\<open>\s*\n\s*\<close> and then the revision pattern.
\<close>

definition gap_pattern :: regex where
  "gap_pattern = Cat (Star isspace) (Cat (Lit [CHR 0x0A]) (Cat (Star isspace) rev_pattern))"

definition value_pattern :: regex where
  "value_pattern = Cat (Group (LazyPlus re_dot)) gap_pattern"

text \<open>
  A revision line follows a text when the text is whitespace that holds at least one line
  feed, then \<^verbatim>\<open>rev:\<close>, whitespace and a token \<open>g2\<close> without whitespace, and \<open>rest\<close>
  after it. A text has the shape of a block when it is \<^verbatim>\<open>repo:\<close>, whitespace \<open>ws1\<close>, a
  reference value \<open>g1\<close> without line feed, and a text that a revision line follows.
\<close>

definition rev_follows :: "string \<Rightarrow> string \<Rightarrow> string \<Rightarrow> bool" where
  "rev_follows t g2 rest \<longleftrightarrow>
     (\<exists>W ws4. t = W @ ''rev:'' @ ws4 @ g2 @ rest
        \<and> (\<forall>c\<in>set W. isspace c) \<and> CHR 0x0A \<in> set W
        \<and> ws4 \<noteq> [] \<and> (\<forall>c\<in>set ws4. isspace c)
        \<and> g2 \<noteq> [] \<and> (\<forall>c\<in>set g2. \<not> isspace c))"

definition block_shape :: "string \<Rightarrow> string \<Rightarrow> string \<Rightarrow> string \<Rightarrow> string \<Rightarrow> bool" where
  "block_shape s ws1 g1 g2 rest \<longleftrightarrow>
     (\<exists>t. s = ''repo:'' @ ws1 @ g1 @ t
        \<and> ws1 \<noteq> [] \<and> (\<forall>c\<in>set ws1. isspace c)
        \<and> g1 \<noteq> [] \<and> CHR 0x0A \<notin> set g1
        \<and> rev_follows t g2 rest)"

definition block_starts :: "string \<Rightarrow> bool" where
  "block_starts s \<longleftrightarrow> (\<exists>ws1 g1 g2 rest. block_shape s ws1 g1 g2 rest)"

text \<open>
  The block a backtracking matcher finds at the start of \<open>s\<close>: among the shapes, the
  whitespace after \<^verbatim>\<open>repo:\<close> is the longest (greedy \<^verbatim>\<open>\s+\<close>), for this whitespace the
  reference value is the shortest (lazy \<^verbatim>\<open>.+?\<close>), and the token is not followed by a
  character that could extend it (greedy \<^verbatim>\<open>[^\s]+\<close>).
\<close>

definition first_block :: "string \<Rightarrow> string \<Rightarrow> string \<Rightarrow> string \<Rightarrow> bool" where
  "first_block s g1 g2 rest \<longleftrightarrow>
     (\<exists>ws1. block_shape s ws1 g1 g2 rest
        \<and> (case rest of [] \<Rightarrow> True | c # _ \<Rightarrow> isspace c)
        \<and> (\<forall>ws1' g1' g2' rest'. block_shape s ws1' g1' g2' rest' \<longrightarrow>
              length ws1' \<le> length ws1 \<and> (length ws1' = length ws1 \<longrightarrow> length g1 \<le> length g1')))"

text \<open>
  The blocks of a document, from left to right and without overlap: either no position of
  the text starts a block, or the text is a gap in which no position starts a block, the
  block found at the end of the gap, and the blocks of the text after this block.
\<close>

inductive block_scan :: "string \<Rightarrow> (string \<times> string) list \<Rightarrow> bool" where
  no_block: "(\<forall>pre suf. text = pre @ suf \<longrightarrow> \<not> block_starts suf) \<Longrightarrow> block_scan text []"
| next_block: "text = gap @ s \<Longrightarrow>
     (\<forall>pre suf. gap = pre @ suf \<longrightarrow> suf \<noteq> [] \<longrightarrow> \<not> block_starts (suf @ s)) \<Longrightarrow>
     first_block s g1 g2 rest \<Longrightarrow> block_scan rest recs \<Longrightarrow>
     block_scan text ((g1, g2) # recs)"

text \<open>
  The two-line block as the specification words it: a repository-reference line and,
  after one line break and leading whitespace, a revision line. The whitespace of the
  pattern, the one line break apart, stays inside its line.
\<close>

definition hspace :: "char \<Rightarrow> bool" where
  "hspace c = (isspace c \<and> c \<noteq> CHR 0x0A)"

definition two_line_block_pattern :: regex where
  "two_line_block_pattern =
     Cat (Lit ''repo:'') (Cat (Plus hspace) (Cat (Group (LazyPlus re_dot))
    (Cat (Star hspace) (Cat (Lit [CHR 0x0A]) (Cat (Star hspace)
    (Cat (Lit ''rev:'') (Cat (Plus hspace) (Group (Plus re_nonspace)))))))))"

section \<open>Facts about the string primitives\<close>

lemma str_contains_iff: "str_contains sub s \<longleftrightarrow> (\<exists>ps ss. s = ps @ sub @ ss)"
proof (induction s)
  case Nil
  then show ?case by auto
next
  case (Cons c cs)
  show ?case
  proof
    assume "str_contains sub (c # cs)"
    then consider "prefix sub (c # cs)" | "str_contains sub cs" by auto
    then show "\<exists>ps ss. c # cs = ps @ sub @ ss"
    proof cases
      case 1
      then obtain ss where "c # cs = sub @ ss" by (auto simp: prefix_def)
      then have "c # cs = [] @ sub @ ss" by simp
      then show ?thesis by blast
    next
      case 2
      with Cons.IH obtain ps ss where "cs = ps @ sub @ ss" by blast
      then have "c # cs = (c # ps) @ sub @ ss" by simp
      then show ?thesis by blast
    qed
  next
    assume "\<exists>ps ss. c # cs = ps @ sub @ ss"
    then obtain ps ss where eq: "c # cs = ps @ sub @ ss" by blast
    show "str_contains sub (c # cs)"
    proof (cases ps)
      case Nil
      with eq have "prefix sub (c # cs)" by (simp add: prefix_def)
      then show ?thesis by simp
    next
      case (Cons p ps')
      with eq have "cs = ps' @ sub @ ss" by simp
      with Cons.IH have "str_contains sub cs" by blast
      then show ?thesis by simp
    qed
  qed
qed

lemma str_contains_set: "str_contains sub s \<Longrightarrow> set sub \<subseteq> set s"
  by (auto simp: str_contains_iff)

lemma str_replace_absent:
  "old \<noteq> [] \<Longrightarrow> \<not> str_contains old s \<Longrightarrow> str_replace old new s = s"
  by (induction s) auto

lemma split_from_absent: "c \<notin> set s \<Longrightarrow> split_from [c] cur s = [rev cur @ s]"
  by (induction s arbitrary: cur) auto

text \<open>A name without separator, without \<^verbatim>\<open>.git\<close> and without outer whitespace is left as it is.\<close>

lemma normalize_fixed:
  assumes "CHR ''/'' \<notin> set s" and "\<not> str_contains ''.git'' s" and "strip s = s"
  shows "normalize_repo_url s = s"
proof -
  have r: "str_replace ''.git'' '''' (strip s) = s"
    using assms by (simp add: str_replace_absent)
  have "\<not> str_contains ''github.com/'' s"
    using assms(1) str_contains_set[of "''github.com/''" s] by auto
  moreover have "last (str_split ''/'' s) = s"
    using assms(1) by (simp add: str_split_def split_from_absent)
  ultimately show ?thesis
    by (simp add: normalize_repo_url_def r)
qed

section \<open>Facts about the matcher\<close>

text \<open>A run of \<open>k\<close> characters inside the longest run of a class lies in the class.\<close>

lemma take_run: "k \<le> length (takeWhile p s) \<Longrightarrow> c \<in> set (take k s) \<Longrightarrow> p c"
proof -
  assume k: "k \<le> length (takeWhile p s)" and c: "c \<in> set (take k s)"
  have "take k s = take k (takeWhile p s @ dropWhile p s)" by simp
  also have "\<dots> = take k (takeWhile p s)" using k by (simp del: takeWhile_dropWhile_id)
  finally have "c \<in> set (takeWhile p s)" using c by (auto dest: in_set_takeD)
  then show "p c" by (rule set_takeWhileD[THEN conjunct2])
qed

lemma run_length: "s = w @ rest \<Longrightarrow> \<forall>c\<in>set w. p c \<Longrightarrow> length w \<le> length (takeWhile p s)"
  by (induction w arbitrary: s) auto

lemma set_matches_Plus:
  "set (matches (Plus p) s gs) = (\<lambda>k. (drop k s, gs)) ` {k. 1 \<le> k \<and> k \<le> length (takeWhile p s)}"
proof -
  have "{1..<Suc (length (takeWhile p s))} = {k. 1 \<le> k \<and> k \<le> length (takeWhile p s)}"
    by auto
  then show ?thesis by (simp del: upt_Suc)
qed

lemma set_matches_LazyPlus:
  "set (matches (LazyPlus p) s gs) = set (matches (Plus p) s gs)"
  by (simp del: upt_Suc)

lemma set_matches_Star:
  "set (matches (Star p) s gs) = (\<lambda>k. (drop k s, gs)) ` {k. k \<le> length (takeWhile p s)}"
proof -
  have "{0..<Suc (length (takeWhile p s))} = {k. k \<le> length (takeWhile p s)}"
    by auto
  then show ?thesis by (simp del: upt_Suc)
qed

lemma in_matches_Lit:
  "(rest, gs') \<in> set (matches (Lit w) s gs) \<longleftrightarrow> s = w @ rest \<and> gs' = gs"
  by (auto simp: prefix_def)

lemma in_matches_Plus:
  "(rest, gs') \<in> set (matches (Plus p) s gs) \<longleftrightarrow>
     gs' = gs \<and> (\<exists>w. s = w @ rest \<and> w \<noteq> [] \<and> (\<forall>c\<in>set w. p c))"
proof
  assume "(rest, gs') \<in> set (matches (Plus p) s gs)"
  then obtain k where k: "1 \<le> k" "k \<le> length (takeWhile p s)" and r: "rest = drop k s" "gs' = gs"
    unfolding set_matches_Plus by auto
  have "k \<le> length s" using k(2) length_takeWhile_le[of p s] by linarith
  then have "take k s \<noteq> []" using k(1) by auto
  moreover have "s = take k s @ rest" by (simp add: r)
  moreover have "\<forall>c\<in>set (take k s). p c" using take_run[OF k(2)] by blast
  ultimately show "gs' = gs \<and> (\<exists>w. s = w @ rest \<and> w \<noteq> [] \<and> (\<forall>c\<in>set w. p c))"
    using r(2) by blast
next
  assume "gs' = gs \<and> (\<exists>w. s = w @ rest \<and> w \<noteq> [] \<and> (\<forall>c\<in>set w. p c))"
  then obtain w where g: "gs' = gs" and w: "s = w @ rest" "w \<noteq> []" "\<forall>c\<in>set w. p c" by blast
  have "length w \<le> length (takeWhile p s)" by (rule run_length[OF w(1) w(3)])
  moreover have "1 \<le> length w" using w(2) by (cases w) auto
  moreover have "rest = drop (length w) s" by (simp add: w(1))
  ultimately have "(rest, gs) \<in> (\<lambda>k. (drop k s, gs)) ` {k. 1 \<le> k \<and> k \<le> length (takeWhile p s)}"
    by (intro image_eqI[where x = "length w"]) auto
  then show "(rest, gs') \<in> set (matches (Plus p) s gs)" by (simp only: g set_matches_Plus)
qed

lemma in_matches_LazyPlus:
  "(rest, gs') \<in> set (matches (LazyPlus p) s gs) \<longleftrightarrow> (rest, gs') \<in> set (matches (Plus p) s gs)"
  by (simp only: set_matches_LazyPlus)

lemma in_matches_Star:
  "(rest, gs') \<in> set (matches (Star p) s gs) \<longleftrightarrow>
     gs' = gs \<and> (\<exists>w. s = w @ rest \<and> (\<forall>c\<in>set w. p c))"
proof
  assume "(rest, gs') \<in> set (matches (Star p) s gs)"
  then obtain k where k: "k \<le> length (takeWhile p s)" and r: "rest = drop k s" "gs' = gs"
    unfolding set_matches_Star by auto
  have "s = take k s @ rest" by (simp add: r)
  moreover have "\<forall>c\<in>set (take k s). p c" using take_run[OF k] by blast
  ultimately show "gs' = gs \<and> (\<exists>w. s = w @ rest \<and> (\<forall>c\<in>set w. p c))"
    using r(2) by blast
next
  assume "gs' = gs \<and> (\<exists>w. s = w @ rest \<and> (\<forall>c\<in>set w. p c))"
  then obtain w where g: "gs' = gs" and w: "s = w @ rest" "\<forall>c\<in>set w. p c" by blast
  have "length w \<le> length (takeWhile p s)" by (rule run_length[OF w(1) w(2)])
  moreover have "rest = drop (length w) s" by (simp add: w(1))
  ultimately have "(rest, gs) \<in> (\<lambda>k. (drop k s, gs)) ` {k. k \<le> length (takeWhile p s)}"
    by (intro image_eqI[where x = "length w"]) auto
  then show "(rest, gs') \<in> set (matches (Star p) s gs)" by (simp only: g set_matches_Star)
qed

lemma in_matches_Cat:
  "(rest, gs') \<in> set (matches (Cat a b) s gs) \<longleftrightarrow>
     (\<exists>mid gm. (mid, gm) \<in> set (matches a s gs) \<and> (rest, gs') \<in> set (matches b mid gm))"
  by auto

lemma in_matches_Group:
  "(rest, gs') \<in> set (matches (Group r) s gs) \<longleftrightarrow>
     (\<exists>gm. (rest, gm) \<in> set (matches r s gs) \<and> gs' = gm @ [take (length s - length rest) s])"
  by auto

lemma in_matches_Eos:
  "(rest, gs') \<in> set (matches Eos s gs) \<longleftrightarrow> rest = s \<and> gs' = gs \<and> (s = [] \<or> s = [CHR 0x0A])"
  by auto

declare matches.simps [simp del]

lemma match_here_in: "match_here r s = Some m \<Longrightarrow> m \<in> set (matches r s [])"
  by (auto simp: match_here_def split: list.splits)

lemma match_here_None: "match_here r s = None \<longleftrightarrow> matches r s [] = []"
  by (auto simp: match_here_def split: list.splits)

lemma re_search_in:
  "re_search r s = Some m \<Longrightarrow> \<exists>s'. suffix s' s \<and> m \<in> set (matches r s' [])"
proof (induction s)
  case Nil
  then show ?case by (auto dest: match_here_in)
next
  case (Cons c cs)
  show ?case
  proof (cases "match_here r (c # cs)")
    case None
    with Cons.prems have "re_search r cs = Some m" by simp
    with Cons.IH obtain s' where "suffix s' cs" "m \<in> set (matches r s' [])" by blast
    then show ?thesis by (auto intro: suffix_ConsI)
  next
    case (Some m')
    with Cons.prems have "m' = m" by simp
    with Some have "m \<in> set (matches r (c # cs) [])" by (auto dest: match_here_in)
    then show ?thesis by blast
  qed
qed

lemma finditer_from_in:
  "gs \<in> set (finditer_from r n s) \<Longrightarrow>
   \<exists>s' rest. suffix s' s \<and> (rest, gs) \<in> set (matches r s' [])"
proof (induction r n s rule: finditer_from.induct)
  case (1 r n)
  then obtain rest where "match_here r [] = Some (rest, gs)"
    by (cases "match_here r []") auto
  then have "(rest, gs) \<in> set (matches r [] [])" by (rule match_here_in)
  then show ?case by blast
next
  case (2 r n c cs)
  show ?case
  proof (cases "0 < n")
    case True
    with 2 show ?thesis by (auto intro: suffix_ConsI)
  next
    case n0: False
    show ?thesis
    proof (cases "match_here r (c # cs)")
      case None
      with 2 n0 show ?thesis by (auto intro: suffix_ConsI)
    next
      case (Some m)
      obtain rest g where m: "m = (rest, g)" by (cases m)
      from "2.prems" n0 Some m
      consider "gs = g" | "gs \<in> set (finditer_from r (length (c # cs) - length rest - 1) cs)"
        by auto
      then show ?thesis
      proof cases
        case 1
        with Some m have "(rest, gs) \<in> set (matches r (c # cs) [])" by (auto dest: match_here_in)
        then show ?thesis by blast
      next
        case g2: 2
        from "2.IH"(3)[OF n0 Some m[symmetric] g2] show ?thesis
          by (auto intro: suffix_ConsI)
      qed
    qed
  qed
qed

lemma group_run:
  "(rest, gs') \<in> set (matches (Group (Plus p)) s gs) \<longleftrightarrow>
     (\<exists>g. s = g @ rest \<and> g \<noteq> [] \<and> (\<forall>c\<in>set g. p c) \<and> gs' = gs @ [g])"
proof
  assume "(rest, gs') \<in> set (matches (Group (Plus p)) s gs)"
  then have "\<exists>gm. (rest, gm) \<in> set (matches (Plus p) s gs)
      \<and> gs' = gm @ [take (length s - length rest) s]"
    by (simp only: in_matches_Group)
  then obtain gm where a: "(rest, gm) \<in> set (matches (Plus p) s gs)"
    and g: "gs' = gm @ [take (length s - length rest) s]" by blast
  from a have gm: "gm = gs" and "\<exists>w. s = w @ rest \<and> w \<noteq> [] \<and> (\<forall>c\<in>set w. p c)"
    by (simp_all only: in_matches_Plus)
  then obtain w where w: "s = w @ rest" "w \<noteq> []" "\<forall>c\<in>set w. p c" by blast
  from w(1) have "take (length s - length rest) s = w" by simp
  with w g gm show "\<exists>g. s = g @ rest \<and> g \<noteq> [] \<and> (\<forall>c\<in>set g. p c) \<and> gs' = gs @ [g]" by blast
next
  assume "\<exists>g. s = g @ rest \<and> g \<noteq> [] \<and> (\<forall>c\<in>set g. p c) \<and> gs' = gs @ [g]"
  then obtain g where g: "s = g @ rest" "g \<noteq> []" "\<forall>c\<in>set g. p c" "gs' = gs @ [g]" by blast
  from g(1) have t: "take (length s - length rest) s = g" by simp
  from g have "(rest, gs) \<in> set (matches (Plus p) s gs)"
    by (simp only: in_matches_Plus) blast
  with t g(4) have "\<exists>gm. (rest, gm) \<in> set (matches (Plus p) s gs)
      \<and> gs' = gm @ [take (length s - length rest) s]" by blast
  then show "(rest, gs') \<in> set (matches (Group (Plus p)) s gs)"
    by (simp only: in_matches_Group)
qed

lemma group_lazy_run:
  "(rest, gs') \<in> set (matches (Group (LazyPlus p)) s gs) \<longleftrightarrow>
     (\<exists>g. s = g @ rest \<and> g \<noteq> [] \<and> (\<forall>c\<in>set g. p c) \<and> gs' = gs @ [g])"
proof -
  have "(rest, gs') \<in> set (matches (Group (LazyPlus p)) s gs) \<longleftrightarrow>
        (rest, gs') \<in> set (matches (Group (Plus p)) s gs)"
    by (simp only: in_matches_Group in_matches_LazyPlus)
  then show ?thesis by (simp only: group_run)
qed

lemma Lit_Cat:
  "(rest, gs') \<in> set (matches (Cat (Lit w) r) s gs) \<longleftrightarrow>
     (\<exists>t. s = w @ t \<and> (rest, gs') \<in> set (matches r t gs))"
  by (simp only: in_matches_Cat in_matches_Lit) blast

lemma Plus_Cat:
  "(rest, gs') \<in> set (matches (Cat (Plus p) r) s gs) \<longleftrightarrow>
     (\<exists>w t. s = w @ t \<and> w \<noteq> [] \<and> (\<forall>c\<in>set w. p c) \<and> (rest, gs') \<in> set (matches r t gs))"
  by (simp only: in_matches_Cat in_matches_Plus) blast

lemma Star_Cat:
  "(rest, gs') \<in> set (matches (Cat (Star p) r) s gs) \<longleftrightarrow>
     (\<exists>w t. s = w @ t \<and> (\<forall>c\<in>set w. p c) \<and> (rest, gs') \<in> set (matches r t gs))"
  by (simp only: in_matches_Cat in_matches_Star) blast

lemma Group_Cat:
  "(rest, gs') \<in> set (matches (Cat (Group (Plus p)) r) s gs) \<longleftrightarrow>
     (\<exists>g t. s = g @ t \<and> g \<noteq> [] \<and> (\<forall>c\<in>set g. p c)
        \<and> (rest, gs') \<in> set (matches r t (gs @ [g])))"
  by (simp only: in_matches_Cat group_run) blast

lemma Group_lazy_Cat:
  "(rest, gs') \<in> set (matches (Cat (Group (LazyPlus p)) r) s gs) \<longleftrightarrow>
     (\<exists>g t. s = g @ t \<and> g \<noteq> [] \<and> (\<forall>c\<in>set g. p c)
        \<and> (rest, gs') \<in> set (matches r t (gs @ [g])))"
  by (simp only: in_matches_Cat group_lazy_run) blast

lemma rev_pattern_shape:
  "(rest, gs) \<in> set (matches rev_pattern s []) \<longleftrightarrow>
     (\<exists>ws g. s = ''rev:'' @ ws @ g @ rest \<and> ws \<noteq> [] \<and> (\<forall>c\<in>set ws. isspace c)
        \<and> g \<noteq> [] \<and> (\<forall>c\<in>set g. \<not> isspace c) \<and> gs = [g])"
proof -
  have "(rest, gs) \<in> set (matches rev_pattern s []) \<longleftrightarrow>
     (\<exists>t. s = ''rev:'' @ t \<and> (\<exists>ws t'. t = ws @ t' \<and> ws \<noteq> [] \<and> (\<forall>c\<in>set ws. isspace c)
        \<and> (\<exists>g. t' = g @ rest \<and> g \<noteq> [] \<and> (\<forall>c\<in>set g. \<not> isspace c) \<and> gs = [] @ [g])))"
    by (simp only: rev_pattern_def Lit_Cat Plus_Cat group_run re_nonspace_def)
  also have "\<dots> \<longleftrightarrow> (\<exists>ws g. s = ''rev:'' @ ws @ g @ rest \<and> ws \<noteq> [] \<and> (\<forall>c\<in>set ws. isspace c)
        \<and> g \<noteq> [] \<and> (\<forall>c\<in>set g. \<not> isspace c) \<and> gs = [g])"
    by (simp only: append_Nil) blast
  finally show ?thesis .
qed

lemma repo_pattern_shape:
  "(rest, gs) \<in> set (matches repo_pattern s []) \<longleftrightarrow>
     (\<exists>ws g. s = ''repo:'' @ ws @ g @ rest \<and> ws \<noteq> [] \<and> (\<forall>c\<in>set ws. isspace c)
        \<and> g \<noteq> [] \<and> CHR 0x0A \<notin> set g \<and> gs = [g] \<and> (rest = [] \<or> rest = [CHR 0x0A]))"
proof -
  have "(rest, gs) \<in> set (matches repo_pattern s []) \<longleftrightarrow>
     (\<exists>t. s = ''repo:'' @ t \<and> (\<exists>ws t'. t = ws @ t' \<and> ws \<noteq> [] \<and> (\<forall>c\<in>set ws. isspace c)
        \<and> (\<exists>g t''. t' = g @ t'' \<and> g \<noteq> [] \<and> (\<forall>c\<in>set g. c \<noteq> CHR 0x0A)
           \<and> (rest = t'' \<and> gs = [] @ [g] \<and> (t'' = [] \<or> t'' = [CHR 0x0A])))))"
    by (simp only: repo_pattern_def Lit_Cat Plus_Cat Group_Cat in_matches_Eos re_dot_def)
  also have "\<dots> \<longleftrightarrow> (\<exists>ws g. s = ''repo:'' @ ws @ g @ rest \<and> ws \<noteq> [] \<and> (\<forall>c\<in>set ws. isspace c)
        \<and> g \<noteq> [] \<and> CHR 0x0A \<notin> set g \<and> gs = [g] \<and> (rest = [] \<or> rest = [CHR 0x0A]))"
    by (simp only: append_Nil) blast
  finally show ?thesis .
qed

lemma block_pattern_shape:
  "(rest, gs) \<in> set (matches block_pattern s []) \<longleftrightarrow>
     (\<exists>ws1 g1 ws2 ws3 ws4 g2.
        s = ''repo:'' @ ws1 @ g1 @ ws2 @ [CHR 0x0A] @ ws3 @ ''rev:'' @ ws4 @ g2 @ rest
        \<and> ws1 \<noteq> [] \<and> (\<forall>c\<in>set ws1. isspace c)
        \<and> g1 \<noteq> [] \<and> (\<forall>c\<in>set g1. c \<noteq> CHR 0x0A)
        \<and> (\<forall>c\<in>set ws2. isspace c) \<and> (\<forall>c\<in>set ws3. isspace c)
        \<and> ws4 \<noteq> [] \<and> (\<forall>c\<in>set ws4. isspace c)
        \<and> g2 \<noteq> [] \<and> (\<forall>c\<in>set g2. \<not> isspace c) \<and> gs = [g1, g2])"
proof -
  have "(rest, gs) \<in> set (matches block_pattern s []) \<longleftrightarrow>
     (\<exists>t1. s = ''repo:'' @ t1 \<and> (\<exists>ws1 t2. t1 = ws1 @ t2 \<and> ws1 \<noteq> [] \<and> (\<forall>c\<in>set ws1. isspace c)
      \<and> (\<exists>g1 t3. t2 = g1 @ t3 \<and> g1 \<noteq> [] \<and> (\<forall>c\<in>set g1. c \<noteq> CHR 0x0A)
      \<and> (\<exists>ws2 t4. t3 = ws2 @ t4 \<and> (\<forall>c\<in>set ws2. isspace c)
      \<and> (\<exists>t5. t4 = [CHR 0x0A] @ t5
      \<and> (\<exists>ws3 t6. t5 = ws3 @ t6 \<and> (\<forall>c\<in>set ws3. isspace c)
      \<and> (\<exists>t7. t6 = ''rev:'' @ t7
      \<and> (\<exists>ws4 t8. t7 = ws4 @ t8 \<and> ws4 \<noteq> [] \<and> (\<forall>c\<in>set ws4. isspace c)
      \<and> (\<exists>g2. t8 = g2 @ rest \<and> g2 \<noteq> [] \<and> (\<forall>c\<in>set g2. \<not> isspace c)
             \<and> gs = ([] @ [g1]) @ [g2])))))))))"
    by (simp only: block_pattern_def Lit_Cat Plus_Cat Star_Cat Group_lazy_Cat group_run
        re_dot_def re_nonspace_def)
  also have "\<dots> \<longleftrightarrow> (\<exists>ws1 g1 ws2 ws3 ws4 g2.
        s = ''repo:'' @ ws1 @ g1 @ ws2 @ [CHR 0x0A] @ ws3 @ ''rev:'' @ ws4 @ g2 @ rest
        \<and> ws1 \<noteq> [] \<and> (\<forall>c\<in>set ws1. isspace c)
        \<and> g1 \<noteq> [] \<and> (\<forall>c\<in>set g1. c \<noteq> CHR 0x0A)
        \<and> (\<forall>c\<in>set ws2. isspace c) \<and> (\<forall>c\<in>set ws3. isspace c)
        \<and> ws4 \<noteq> [] \<and> (\<forall>c\<in>set ws4. isspace c)
        \<and> g2 \<noteq> [] \<and> (\<forall>c\<in>set g2. \<not> isspace c) \<and> gs = [g1, g2])"
    (is "?L \<longleftrightarrow> ?R")
  proof
    assume ?L
    then obtain t1 ws1 t2 g1 t3 ws2 t4 t5 ws3 t6 t7 ws4 t8 g2 where
      e: "s = ''repo:'' @ t1" "t1 = ws1 @ t2" "t2 = g1 @ t3" "t3 = ws2 @ t4"
         "t4 = [CHR 0x0A] @ t5" "t5 = ws3 @ t6" "t6 = ''rev:'' @ t7" "t7 = ws4 @ t8"
         "t8 = g2 @ rest"
      and c: "ws1 \<noteq> []" "\<forall>c\<in>set ws1. isspace c" "g1 \<noteq> []" "\<forall>c\<in>set g1. c \<noteq> CHR 0x0A"
         "\<forall>c\<in>set ws2. isspace c" "\<forall>c\<in>set ws3. isspace c" "ws4 \<noteq> []"
         "\<forall>c\<in>set ws4. isspace c" "g2 \<noteq> []" "\<forall>c\<in>set g2. \<not> isspace c"
      and g: "gs = ([] @ [g1]) @ [g2]"
      by blast
    have "s = ''repo:'' @ ws1 @ g1 @ ws2 @ [CHR 0x0A] @ ws3 @ ''rev:'' @ ws4 @ g2 @ rest"
      by (simp only: e)
    moreover have "gs = [g1, g2]" using g by simp
    ultimately show ?R using c by blast
  next
    assume ?R
    then obtain ws1 g1 ws2 ws3 ws4 g2 where
      s: "s = ''repo:'' @ ws1 @ g1 @ ws2 @ [CHR 0x0A] @ ws3 @ ''rev:'' @ ws4 @ g2 @ rest"
      and c: "ws1 \<noteq> []" "\<forall>c\<in>set ws1. isspace c" "g1 \<noteq> []" "\<forall>c\<in>set g1. c \<noteq> CHR 0x0A"
         "\<forall>c\<in>set ws2. isspace c" "\<forall>c\<in>set ws3. isspace c" "ws4 \<noteq> []"
         "\<forall>c\<in>set ws4. isspace c" "g2 \<noteq> []" "\<forall>c\<in>set g2. \<not> isspace c"
      and g: "gs = [g1, g2]"
      by blast
    have g': "gs = ([] @ [g1]) @ [g2]" using g by simp
    show ?L
      apply (rule exI[of _ "ws1 @ g1 @ ws2 @ [CHR 0x0A] @ ws3 @ ''rev:'' @ ws4 @ g2 @ rest"])
      apply (rule conjI[OF s])
      apply (rule exI[of _ ws1], rule exI[of _ "g1 @ ws2 @ [CHR 0x0A] @ ws3 @ ''rev:'' @ ws4 @ g2 @ rest"])
      apply (intro conjI refl c)
      apply (rule exI[of _ g1], rule exI[of _ "ws2 @ [CHR 0x0A] @ ws3 @ ''rev:'' @ ws4 @ g2 @ rest"])
      apply (intro conjI refl c)
      apply (rule exI[of _ ws2], rule exI[of _ "[CHR 0x0A] @ ws3 @ ''rev:'' @ ws4 @ g2 @ rest"])
      apply (intro conjI refl c)
      apply (rule exI[of _ "ws3 @ ''rev:'' @ ws4 @ g2 @ rest"])
      apply (intro conjI refl c)
      apply (rule exI[of _ ws3], rule exI[of _ "''rev:'' @ ws4 @ g2 @ rest"])
      apply (intro conjI refl c)
      apply (rule exI[of _ "ws4 @ g2 @ rest"])
      apply (intro conjI refl c)
      apply (rule exI[of _ ws4], rule exI[of _ "g2 @ rest"])
      apply (intro conjI refl c)
      apply (rule exI[of _ g2])
      apply (intro conjI refl c g')
      done
  qed
  finally show ?thesis .
qed

section \<open>Facts about the config parser\<close>

lemma parse_line_cases:
  "parse_line (cur, tools) raw =
     (case repo_line raw of
        Some u \<Rightarrow> (Some (normalize_repo_url u), tools)
      | None \<Rightarrow>
          (case rev_line raw of
             Some v \<Rightarrow> if truthy cur then (None, dict_set tools (the cur) v) else (cur, tools)
           | None \<Rightarrow> (cur, tools)))"
  by (auto simp: repo_line_def rev_line_def truthy_def split: option.splits)

declare parse_line.simps [simp del]

lemma parse_lines_Nil: "parse_lines st [] = st"
  by (simp add: parse_lines_def)

lemma parse_lines_Cons: "parse_lines st (l # ls) = parse_lines (parse_line st l) ls"
  by (simp add: parse_lines_def)

lemma parse_lines_append: "parse_lines st (xs @ ys) = parse_lines (parse_lines st xs) ys"
  by (simp add: parse_lines_def)

lemma parse_line_repo:
  "repo_line raw = Some u \<Longrightarrow> parse_line (cur, tools) raw = (Some (normalize_repo_url u), tools)"
  by (simp add: parse_line_cases)

lemma parse_line_rev:
  "rev_line raw = Some v \<Longrightarrow> repo \<noteq> [] \<Longrightarrow>
   parse_line (Some repo, tools) raw = (None, dict_set tools repo v)"
proof -
  assume v: "rev_line raw = Some v" and r: "repo \<noteq> []"
  from v have "repo_line raw = None"
    by (auto simp: rev_line_def repo_line_def split: option.splits)
  with v r show ?thesis by (simp add: parse_line_cases truthy_def)
qed

lemma parse_line_idle:
  "repo_line raw = None \<Longrightarrow> \<not> truthy cur \<Longrightarrow> parse_line (cur, tools) raw = (cur, tools)"
  by (simp add: parse_line_cases split: option.splits)

lemma parse_line_other:
  "repo_line raw = None \<Longrightarrow> rev_line raw = None \<Longrightarrow> parse_line st raw = st"
  by (cases st) (simp add: parse_line_cases)

lemma parse_lines_other:
  "\<forall>l\<in>set ls. repo_line l = None \<and> rev_line l = None \<Longrightarrow> parse_lines st ls = st"
  by (induction ls arbitrary: st) (simp_all add: parse_lines_Nil parse_lines_Cons parse_line_other)

section \<open>Revisions are tokens; the map of the parser is well formed\<close>

lemma strip_nonspace: "\<forall>c\<in>set s. \<not> isspace c \<Longrightarrow> strip s = s"
proof -
  assume a: "\<forall>c\<in>set s. \<not> isspace c"
  have 1: "dropWhile isspace s = s"
    using a by (cases s) auto
  have "\<forall>c\<in>set (rev s). \<not> isspace c" using a by simp
  then have 2: "dropWhile isspace (rev s) = rev s"
    by (cases "rev s") auto
  show ?thesis by (simp add: strip_def 1 2)
qed

text \<open>A match of the line patterns has captured exactly one group, so \<open>! 0\<close> reads it.\<close>

lemma repo_search_group:
  assumes "re_search repo_pattern s = Some m"
  shows "\<exists>g. snd m = [g] \<and> g \<noteq> []"
proof -
  from re_search_in[OF assms] obtain s' where "(fst m, snd m) \<in> set (matches repo_pattern s' [])"
    by auto
  then show ?thesis unfolding repo_pattern_shape by blast
qed

lemma rev_search_group:
  assumes "re_search rev_pattern s = Some m"
  shows "\<exists>g. snd m = [g] \<and> g \<noteq> [] \<and> (\<forall>c\<in>set g. \<not> isspace c)"
proof -
  from re_search_in[OF assms] obtain s' where "(fst m, snd m) \<in> set (matches rev_pattern s' [])"
    by auto
  then show ?thesis unfolding rev_pattern_shape by blast
qed

lemma rev_line_token:
  assumes "rev_line raw = Some v"
  shows "v \<noteq> [] \<and> (\<forall>c\<in>set v. \<not> isspace c)"
proof -
  from assms obtain m where m: "re_search rev_pattern (strip raw) = Some m" and v: "v = snd m ! 0"
    by (auto simp: rev_line_def split: option.splits)
  from re_search_in[OF m] obtain s' where "m \<in> set (matches rev_pattern s' [])" by blast
  then have "(fst m, snd m) \<in> set (matches rev_pattern s' [])" by simp
  then obtain g where "snd m = [g]" "g \<noteq> []" "\<forall>c\<in>set g. \<not> isspace c"
    unfolding rev_pattern_shape by blast
  with v show ?thesis by simp
qed

lemma set_update_subset: "set (AList.update k v al) \<subseteq> insert (k, v) (set al)"
  by (induction al) auto

lemma wf_canonical_set:
  assumes "wf_canonical d" "k \<noteq> []" "v \<noteq> []" "\<forall>c\<in>set v. \<not> isspace c"
  shows "wf_canonical (dict_set d k v)"
proof -
  have "distinct (map fst (AList.update k v d))"
    using assms(1) by (simp add: wf_canonical_def distinct_update)
  moreover have "\<forall>e\<in>set (AList.update k v d).
      fst e \<noteq> [] \<and> snd e \<noteq> [] \<and> (\<forall>c\<in>set (snd e). \<not> isspace c)"
  proof
    fix e assume "e \<in> set (AList.update k v d)"
    then have "e = (k, v) \<or> e \<in> set d" using set_update_subset[of k v d] by auto
    then show "fst e \<noteq> [] \<and> snd e \<noteq> [] \<and> (\<forall>c\<in>set (snd e). \<not> isspace c)"
      using assms by (auto simp: wf_canonical_def)
  qed
  ultimately show ?thesis by (simp add: wf_canonical_def dict_set_def)
qed

lemma parse_line_wf:
  assumes "wf_canonical (snd st)"
  shows "wf_canonical (snd (parse_line st raw))"
proof (cases st)
  case (Pair cur tools)
  show ?thesis
  proof (cases "repo_line raw")
    case (Some u)
    with Pair assms show ?thesis by (simp add: parse_line_cases)
  next
    case None
    show ?thesis
    proof (cases "rev_line raw")
      case n: None
      with None Pair assms show ?thesis by (simp add: parse_line_cases)
    next
      case (Some v)
      show ?thesis
      proof (cases "truthy cur")
        case False
        with None Some Pair assms show ?thesis by (simp add: parse_line_cases)
      next
        case True
        then obtain repo where r: "cur = Some repo" "repo \<noteq> []"
          by (auto simp: truthy_def split: option.splits)
        from rev_line_token[OF Some] assms Pair r
        have "wf_canonical (dict_set tools repo v)" by (intro wf_canonical_set) auto
        with None Some Pair True r show ?thesis by (simp add: parse_line_cases)
      qed
    qed
  qed
qed

lemma parse_lines_wf: "wf_canonical (snd st) \<Longrightarrow> wf_canonical (snd (parse_lines st ls))"
  by (induction ls arbitrary: st) (simp_all add: parse_lines_Nil parse_lines_Cons parse_line_wf)

lemma parse_config_text_wf: "wf_canonical (parse_config_text content)"
proof -
  have "wf_canonical (snd (None :: string option, [] :: dict))" by (simp add: wf_canonical_def)
  then show ?thesis unfolding parse_config_text_def by (rule parse_lines_wf)
qed

lemma wf_truthy_get:
  "wf_canonical d \<Longrightarrow> truthy (dict_get d k) \<longleftrightarrow> k \<in> set (dict_keys d)"
proof -
  assume wf: "wf_canonical d"
  show ?thesis
  proof (cases "map_of d k")
    case None
    then have "k \<notin> fst ` set d" by (simp add: map_of_eq_None_iff)
    with None show ?thesis by (simp add: truthy_def dict_get_def dict_keys_def)
  next
    case (Some v)
    then have "(k, v) \<in> set d" by (rule map_of_SomeD)
    with wf have "v \<noteq> []" "k \<in> fst ` set d" by (force simp: wf_canonical_def)+
    with Some show ?thesis by (simp add: truthy_def dict_get_def dict_keys_def)
  qed
qed

lemma finditer_block_groups:
  assumes "gs \<in> set (finditer block_pattern s)"
  shows "\<exists>g1 g2. gs = [g1, g2] \<and> g1 \<noteq> [] \<and> CHR 0x0A \<notin> set g1
          \<and> g2 \<noteq> [] \<and> (\<forall>c\<in>set g2. \<not> isspace c)"
proof -
  from assms obtain s' rest where "(rest, gs) \<in> set (matches block_pattern s' [])"
    unfolding finditer_def by (blast dest: finditer_from_in)
  then show ?thesis unfolding block_pattern_shape by blast
qed

lemma scan_text_rev:
  assumes "u \<in> set (scan_text md_file content)"
  shows "snd (snd u) \<noteq> [] \<and> (\<forall>c\<in>set (snd (snd u)). \<not> isspace c)"
proof -
  from assms obtain gs where gs: "gs \<in> set (finditer block_pattern content)"
    and u: "u = (md_file, normalize_repo_url (strip (gs ! 0)), strip (gs ! 1))"
    by (auto simp: scan_text_def)
  from finditer_block_groups[OF gs] obtain g1 g2 where
    g: "gs = [g1, g2]" "g2 \<noteq> []" "\<forall>c\<in>set g2. \<not> isspace c" by blast
  then have "strip (gs ! 1) = g2" by (simp add: strip_nonspace)
  with u g show ?thesis by simp
qed

lemma scan_markdown_files_rev:
  assumes "u \<in> set (scan_markdown_files files)"
  shows "snd (snd u) \<noteq> [] \<and> (\<forall>c\<in>set (snd (snd u)). \<not> isspace c)"
proof -
  from assms obtain md_file content where "u \<in> set (scan_text md_file content)"
    by (auto simp: scan_markdown_files_def)
  then show ?thesis by (rule scan_text_rev)
qed

section \<open>Facts about bindings\<close>

lemma parse_line_bind:
  "repo_line raw = None \<Longrightarrow> rev_line raw = Some v \<Longrightarrow> truthy cur \<Longrightarrow>
   parse_line (cur, tools) raw = (None, dict_set tools (the cur) v)"
  by (simp add: parse_line_cases)

lemma rev_line_not_repo: "rev_line raw = Some v \<Longrightarrow> repo_line raw = None"
  by (auto simp: rev_line_def repo_line_def split: option.splits)

lemma filter_key_one:
  "distinct (map fst d) \<Longrightarrow> map_of d k = Some v \<Longrightarrow> length (filter (\<lambda>e. fst e = k) d) = 1"
proof (induction d)
  case Nil
  then show ?case by simp
next
  case (Cons e d)
  show ?case
  proof (cases "fst e = k")
    case True
    with Cons.prems(1) have "k \<notin> fst ` set d" by auto
    then have "filter (\<lambda>e. fst e = k) d = []" by (auto simp: filter_empty_conv)
    with True show ?thesis by simp
  next
    case False
    with Cons show ?thesis by (cases e) auto
  qed
qed

lemma parse_line_keeps:
  assumes "fst st \<noteq> Some k" and "map_of (snd st) k = Some v"
    and "\<forall>u. repo_line l = Some u \<longrightarrow> normalize_repo_url u \<noteq> k"
  shows "fst (parse_line st l) \<noteq> Some k \<and> map_of (snd (parse_line st l)) k = Some v"
proof (cases st)
  case (Pair cur tools)
  show ?thesis
  proof (cases "repo_line l")
    case (Some u)
    with assms Pair show ?thesis by (simp add: parse_line_cases)
  next
    case None
    show ?thesis
    proof (cases "rev_line l")
      case n: None
      with None assms Pair show ?thesis by (simp add: parse_line_cases)
    next
      case (Some w)
      show ?thesis
      proof (cases "truthy cur")
        case False
        with None Some assms Pair show ?thesis by (simp add: parse_line_cases)
      next
        case True
        then obtain r where r: "cur = Some r" by (auto simp: truthy_def split: option.splits)
        with assms(1) Pair have "r \<noteq> k" by simp
        then have "map_of (AList.update r w tools) k = Some v"
          using assms(2) Pair by (simp add: update_conv')
        with None Some True r Pair show ?thesis
          by (simp add: parse_line_cases dict_set_def)
      qed
    qed
  qed
qed

lemma parse_lines_keeps:
  assumes "fst st \<noteq> Some k" and "map_of (snd st) k = Some v"
    and "\<forall>l\<in>set ls. \<forall>u. repo_line l = Some u \<longrightarrow> normalize_repo_url u \<noteq> k"
  shows "map_of (snd (parse_lines st ls)) k = Some v"
  using assms
proof (induction ls arbitrary: st)
  case Nil
  then show ?case by (simp add: parse_lines_Nil)
next
  case (Cons l ls)
  from Cons.prems have "fst (parse_line st l) \<noteq> Some k \<and> map_of (snd (parse_line st l)) k = Some v"
    by (intro parse_line_keeps) auto
  with Cons.IH[of "parse_line st l"] Cons.prems(3) show ?case
    by (simp add: parse_lines_Cons)
qed

section \<open>Facts about the reconciler\<close>

lemma possible_match_find:
  "possible_match ks k = List.find (\<lambda>c. suffix c k \<or> suffix k c) ks"
  by (induction ks) (simp_all add: endswith_def)

lemma fuzzy_candidate_key:
  assumes "fuzzy_candidate d k = Some c"
  shows "c \<in> set (dict_keys d) \<and> (suffix c k \<or> suffix k c)"
  using assms unfolding fuzzy_candidate_def find_Some_iff by auto

lemma wf_key_value:
  assumes "wf_canonical d" and "c \<in> set (dict_keys d)"
  shows "c \<noteq> [] \<and> (\<exists>v. map_of d c = Some v \<and> v \<noteq> [])"
proof -
  from assms(2) obtain v where v: "map_of d c = Some v"
    by (cases "map_of d c") (auto simp: dict_keys_def map_of_eq_None_iff)
  then have "(c, v) \<in> set d" by (rule map_of_SomeD)
  with assms(1) have "c \<noteq> []" "v \<noteq> []" by (force simp: wf_canonical_def)+
  with v show ?thesis by simp
qed

lemma reconcile_usage_exact:
  assumes "wf_canonical d" and "k \<in> set (dict_keys d)"
  shows "\<exists>crev. dict_get d k = Some crev \<and>
     reconcile_usage d (out, e, w) (f, k, rv) =
       (if rv \<noteq> crev then Inr (out @ mismatch_lines f k rv crev, e + 1, w) else Inr (out, e, w))"
proof -
  from wf_key_value[OF assms] obtain v where v: "map_of d k = Some v" "v \<noteq> []" by blast
  then show ?thesis by (auto simp: dict_get_def truthy_def)
qed

lemma reconcile_usage_fuzzy:
  assumes "wf_canonical d" and "k \<notin> set (dict_keys d)"
  shows "case fuzzy_candidate d k of
           None \<Rightarrow> reconcile_usage d (out, e, w) (f, k, rv) = Inr (out, e, w + 1)
         | Some c \<Rightarrow> \<exists>crev. dict_get d c = Some crev \<and>
             reconcile_usage d (out, e, w) (f, k, rv) =
               (if rv \<noteq> crev then Inr (out @ fuzzy_lines f k c rv crev, e + 1, w)
                else Inr (out, e, w))"
proof -
  from assms(2) have g: "dict_get d k = None"
    by (simp add: dict_get_def dict_keys_def map_of_eq_None_iff)
  show ?thesis
  proof (cases "fuzzy_candidate d k")
    case None
    then have "possible_match (dict_keys d) k = None"
      by (simp add: possible_match_find fuzzy_candidate_def)
    with None g show ?thesis by (simp add: truthy_def)
  next
    case (Some c)
    then have pm: "possible_match (dict_keys d) k = Some c"
      by (simp add: possible_match_find fuzzy_candidate_def)
    from fuzzy_candidate_key[OF Some] have "c \<in> set (dict_keys d)" by simp
    from wf_key_value[OF assms(1) this] obtain v where v: "c \<noteq> []" "map_of d c = Some v" by blast
    with pm g Some show ?thesis
      by (simp add: truthy_def dict_item_def dict_get_def)
  qed
qed

lemma resolved_rev_key:
  assumes "k \<in> set (dict_keys d)" and "dict_get d k = Some crev"
  shows "resolved_rev d k = Some crev"
  using assms by (simp add: resolved_rev_def dict_get_def)

lemma resolved_rev_absent:
  assumes "k \<notin> set (dict_keys d)"
  shows "resolved_rev d k = (case fuzzy_candidate d k of None \<Rightarrow> None | Some c \<Rightarrow> dict_get d c)"
proof -
  from assms have "map_of d k = None" by (simp add: dict_keys_def map_of_eq_None_iff)
  then show ?thesis by (simp add: resolved_rev_def dict_get_def split: option.splits)
qed

lemma reconcile_usage_total:
  assumes "wf_canonical d"
  shows "\<exists>out'. reconcile_usage d (out, e, w) u =
           Inr (out', e + (if mismatched d u then 1 else 0), w + (if unresolved d u then 1 else 0))
         \<and> (\<not> mismatched d u \<longrightarrow> out' = out)"
proof -
  obtain f k rv where u: "u = (f, k, rv)" by (cases u)
  show ?thesis
  proof (cases "k \<in> set (dict_keys d)")
    case True
    from reconcile_usage_exact[OF assms True, of out e w f rv] obtain crev where
      c: "dict_get d k = Some crev"
      and r: "reconcile_usage d (out, e, w) (f, k, rv) =
        (if rv \<noteq> crev then Inr (out @ mismatch_lines f k rv crev, e + 1, w) else Inr (out, e, w))"
      by blast
    have "resolved_rev d k = Some crev" by (rule resolved_rev_key[OF True c])
    then show ?thesis using r u by (simp add: mismatched_def unresolved_def)
  next
    case False
    note fz = reconcile_usage_fuzzy[OF assms False, of out e w f rv]
    note rr = resolved_rev_absent[OF False]
    show ?thesis
    proof (cases "fuzzy_candidate d k")
      case None
      with fz rr u show ?thesis by (simp add: mismatched_def unresolved_def)
    next
      case (Some c)
      with fz obtain crev where c: "dict_get d c = Some crev"
        and r: "reconcile_usage d (out, e, w) (f, k, rv) =
          (if rv \<noteq> crev then Inr (out @ fuzzy_lines f k c rv crev, e + 1, w) else Inr (out, e, w))"
        by auto
      from rr Some c have "resolved_rev d k = Some crev" by simp
      then show ?thesis using r u by (simp add: mismatched_def unresolved_def)
    qed
  qed
qed

lemma reconcile_total:
  assumes "wf_canonical d"
  shows "\<exists>out'. reconcile d (out, e, w) us =
           Inr (out', e + length (filter (mismatched d) us), w + length (filter (unresolved d) us))
         \<and> ((\<forall>u\<in>set us. \<not> mismatched d u) \<longrightarrow> out' = out)"
proof (induction us arbitrary: out e w)
  case Nil
  show ?case by simp
next
  case (Cons u us)
  from reconcile_usage_total[OF assms, of out e w u] obtain out1 where
    s: "reconcile_usage d (out, e, w) u =
          Inr (out1, e + (if mismatched d u then 1 else 0), w + (if unresolved d u then 1 else 0))"
    and k: "\<not> mismatched d u \<longrightarrow> out1 = out" by blast
  from Cons.IH[of out1 "e + (if mismatched d u then 1 else 0)" "w + (if unresolved d u then 1 else 0)"]
  obtain out2 where
    r: "reconcile d (out1, e + (if mismatched d u then 1 else 0), w + (if unresolved d u then 1 else 0)) us =
          Inr (out2, e + (if mismatched d u then 1 else 0) + length (filter (mismatched d) us),
                     w + (if unresolved d u then 1 else 0) + length (filter (unresolved d) us))"
    and k2: "(\<forall>u\<in>set us. \<not> mismatched d u) \<longrightarrow> out2 = out1" by blast
  have "reconcile d (out, e, w) (u # us) =
      Inr (out2, e + length (filter (mismatched d) (u # us)), w + length (filter (unresolved d) (u # us)))"
    by (simp add: s r)
  moreover have "(\<forall>u\<in>set (u # us). \<not> mismatched d u) \<longrightarrow> out2 = out"
    using k k2 by simp
  ultimately show ?case by blast
qed

section \<open>The first match of the block pattern\<close>

lemma match_here_first: "match_here r s = first_of (matches r s [])"
  by (simp add: match_here_def first_of_def)

lemma first_of_Nil [simp]: "first_of [] = None"
  by (simp add: first_of_def)

lemma first_of_Cons [simp]: "first_of (x # xs) = Some x"
  by (simp add: first_of_def)

lemma first_of_None: "first_of xs = None \<longleftrightarrow> xs = []"
  by (cases xs) auto

lemma first_of_in: "first_of xs = Some x \<Longrightarrow> x \<in> set xs"
  by (cases xs) auto

lemma first_of_append: "first_of (xs @ ys) = (if xs = [] then first_of ys else first_of xs)"
  by (cases xs) auto

lemma first_of_map: "first_of (map f xs) = map_option f (first_of xs)"
  by (cases xs) auto

lemma first_concat_upt:
  "first_of (concat (map f [a..<b])) = Some m \<Longrightarrow>
   \<exists>k. a \<le> k \<and> k < b \<and> first_of (f k) = Some m \<and> (\<forall>k'. a \<le> k' \<and> k' < k \<longrightarrow> f k' = [])"
proof (induction b)
  case 0
  then show ?case by simp
next
  case (Suc b)
  show ?case
  proof (cases "a \<le> b")
    case False
    with Suc.prems show ?thesis by simp
  next
    case True
    then have e: "concat (map f [a..<Suc b]) = concat (map f [a..<b]) @ f b" by simp
    from Suc.prems have p: "first_of (concat (map f [a..<b]) @ f b) = Some m"
      by (simp only: e)
    show ?thesis
    proof (cases "concat (map f [a..<b]) = []")
      case False
      with p have "first_of (concat (map f [a..<b])) = Some m"
        by (simp only: first_of_append if_False)
      from Suc.IH[OF this] show ?thesis by (meson less_Suc_eq)
    next
      case emp: True
      then have all: "\<forall>k'. a \<le> k' \<and> k' < b \<longrightarrow> f k' = []" by auto
      from emp p have "first_of (f b) = Some m" by (simp add: first_of_append)
      with True all show ?thesis by blast
    qed
  qed
qed

lemma first_concat_rev:
  "first_of (concat (map f (rev [a..<b]))) = Some m \<Longrightarrow>
   \<exists>k. a \<le> k \<and> k < b \<and> first_of (f k) = Some m \<and> (\<forall>k'. k < k' \<and> k' < b \<longrightarrow> f k' = [])"
proof (induction b)
  case 0
  then show ?case by simp
next
  case (Suc b)
  show ?case
  proof (cases "a \<le> b")
    case False
    with Suc.prems show ?thesis by simp
  next
    case True
    then have e: "concat (map f (rev [a..<Suc b])) = f b @ concat (map f (rev [a..<b]))" by simp
    from Suc.prems have p: "first_of (f b @ concat (map f (rev [a..<b]))) = Some m"
      by (simp only: e)
    show ?thesis
    proof (cases "f b = []")
      case False
      with p have "first_of (f b) = Some m" by (simp only: first_of_append if_False)
      moreover have "\<forall>k'. b < k' \<and> k' < Suc b \<longrightarrow> f k' = []" by auto
      ultimately show ?thesis using True by blast
    next
      case emp: True
      with p have "first_of (concat (map f (rev [a..<b]))) = Some m"
        by (simp add: first_of_append)
      from Suc.IH[OF this] obtain k where k: "a \<le> k" "k < b" "first_of (f k) = Some m"
        "\<forall>k'. k < k' \<and> k' < b \<longrightarrow> f k' = []" by blast
      have "\<forall>k'. k < k' \<and> k' < Suc b \<longrightarrow> f k' = []"
        using k(4) emp by (auto simp: less_Suc_eq)
      with k show ?thesis by (meson less_Suc_eq)
    qed
  qed
qed

lemma Lit_first:
  assumes "first_of (matches (Cat (Lit w) r) s gs) = Some m"
  shows "\<exists>t. s = w @ t \<and> first_of (matches r t gs) = Some m"
proof (cases "prefix w s")
  case True
  then obtain t where t: "s = w @ t" by (auto simp: prefix_def)
  then have "matches (Cat (Lit w) r) s gs = matches r t gs" by (simp add: matches.simps)
  with assms t show ?thesis by auto
next
  case False
  then have "matches (Cat (Lit w) r) s gs = []" by (simp add: matches.simps)
  with assms show ?thesis by simp
qed

lemma Plus_first:
  assumes "first_of (matches (Cat (Plus p) r) s gs) = Some m"
  shows "\<exists>w t. s = w @ t \<and> w \<noteq> [] \<and> (\<forall>c\<in>set w. p c) \<and> first_of (matches r t gs) = Some m
           \<and> (\<forall>w' t'. s = w' @ t' \<and> (\<forall>c\<in>set w'. p c) \<and> length w < length w'
                 \<longrightarrow> matches r t' gs = [])"
proof -
  let ?n = "length (takeWhile p s)"
  have "matches (Cat (Plus p) r) s gs
      = concat (map (\<lambda>k. matches r (drop k s) gs) (rev [1..<Suc ?n]))"
    by (simp add: matches.simps comp_def del: upt_Suc)
  with assms have "first_of (concat (map (\<lambda>k. matches r (drop k s) gs) (rev [1..<Suc ?n]))) = Some m"
    by simp
  from first_concat_rev[OF this] obtain k where k: "1 \<le> k" "k < Suc ?n"
    and f: "first_of (matches r (drop k s) gs) = Some m"
    and g: "\<forall>k'. k < k' \<and> k' < Suc ?n \<longrightarrow> matches r (drop k' s) gs = []" by blast
  have kn: "k \<le> ?n" using k(2) by simp
  have ks: "k \<le> length s" using kn length_takeWhile_le[of p s] by linarith
  have 1: "s = take k s @ drop k s" by simp
  have 2: "take k s \<noteq> []" using k(1) ks by auto
  have 3: "\<forall>c\<in>set (take k s). p c" using take_run[OF kn] by blast
  have 4: "\<forall>w' t'. s = w' @ t' \<and> (\<forall>c\<in>set w'. p c) \<and> length (take k s) < length w'
                 \<longrightarrow> matches r t' gs = []"
  proof (intro allI impI)
    fix w' t' assume a: "s = w' @ t' \<and> (\<forall>c\<in>set w'. p c) \<and> length (take k s) < length w'"
    then have "length w' \<le> ?n" using run_length[of s w' t' p] by blast
    moreover have "k < length w'" using a ks by simp
    ultimately have "matches r (drop (length w') s) gs = []" using g by simp
    moreover have "drop (length w') s = t'" using a by simp
    ultimately show "matches r t' gs = []" by simp
  qed
  from 1 2 3 4 f show ?thesis by blast
qed

lemma Star_first:
  assumes "first_of (matches (Cat (Star p) r) s gs) = Some m"
  shows "\<exists>w t. s = w @ t \<and> (\<forall>c\<in>set w. p c) \<and> first_of (matches r t gs) = Some m
           \<and> (\<forall>w' t'. s = w' @ t' \<and> (\<forall>c\<in>set w'. p c) \<and> length w < length w'
                 \<longrightarrow> matches r t' gs = [])"
proof -
  let ?n = "length (takeWhile p s)"
  have "matches (Cat (Star p) r) s gs
      = concat (map (\<lambda>k. matches r (drop k s) gs) (rev [0..<Suc ?n]))"
    by (simp add: matches.simps comp_def del: upt_Suc)
  with assms have "first_of (concat (map (\<lambda>k. matches r (drop k s) gs) (rev [0..<Suc ?n]))) = Some m"
    by simp
  from first_concat_rev[OF this] obtain k where k: "k < Suc ?n"
    and f: "first_of (matches r (drop k s) gs) = Some m"
    and g: "\<forall>k'. k < k' \<and> k' < Suc ?n \<longrightarrow> matches r (drop k' s) gs = []" by blast
  have kn: "k \<le> ?n" using k by simp
  have ks: "k \<le> length s" using kn length_takeWhile_le[of p s] by linarith
  have 1: "s = take k s @ drop k s" by simp
  have 3: "\<forall>c\<in>set (take k s). p c" using take_run[OF kn] by blast
  have 4: "\<forall>w' t'. s = w' @ t' \<and> (\<forall>c\<in>set w'. p c) \<and> length (take k s) < length w'
                 \<longrightarrow> matches r t' gs = []"
  proof (intro allI impI)
    fix w' t' assume a: "s = w' @ t' \<and> (\<forall>c\<in>set w'. p c) \<and> length (take k s) < length w'"
    then have "length w' \<le> ?n" using run_length[of s w' t' p] by blast
    moreover have "k < length w'" using a ks by simp
    ultimately have "matches r (drop (length w') s) gs = []" using g by simp
    moreover have "drop (length w') s = t'" using a by simp
    ultimately show "matches r t' gs = []" by simp
  qed
  from 1 3 4 f show ?thesis by blast
qed

lemma Lazy_first:
  assumes "first_of (matches (Cat (Group (LazyPlus p)) r) s gs) = Some m"
  shows "\<exists>g t. s = g @ t \<and> g \<noteq> [] \<and> (\<forall>c\<in>set g. p c)
           \<and> first_of (matches r t (gs @ [g])) = Some m
           \<and> (\<forall>g' t'. s = g' @ t' \<and> g' \<noteq> [] \<and> length g' < length g
                 \<longrightarrow> matches r t' (gs @ [g']) = [])"
proof -
  let ?n = "length (takeWhile p s)"
  have e0: "matches (Cat (Group (LazyPlus p)) r) s gs
      = concat (map (\<lambda>k. matches r (drop k s) (gs @ [take (length s - (length s - k)) s]))
          [1..<Suc ?n])"
    by (simp add: matches.simps comp_def del: upt_Suc)
  have c: "map (\<lambda>k. matches r (drop k s) (gs @ [take (length s - (length s - k)) s])) [1..<Suc ?n]
      = map (\<lambda>k. matches r (drop k s) (gs @ [take k s])) [1..<Suc ?n]"
  proof (rule map_cong[OF refl])
    fix k assume "k \<in> set [1..<Suc ?n]"
    then have "k \<le> length s" using length_takeWhile_le[of p s] by auto
    then have "length s - (length s - k) = k" by simp
    then show "matches r (drop k s) (gs @ [take (length s - (length s - k)) s])
        = matches r (drop k s) (gs @ [take k s])" by simp
  qed
  have "matches (Cat (Group (LazyPlus p)) r) s gs
      = concat (map (\<lambda>k. matches r (drop k s) (gs @ [take k s])) [1..<Suc ?n])"
    by (simp only: e0 c)
  with assms have
    "first_of (concat (map (\<lambda>k. matches r (drop k s) (gs @ [take k s])) [1..<Suc ?n])) = Some m"
    by simp
  from first_concat_upt[OF this] obtain k where k: "1 \<le> k" "k < Suc ?n"
    and f: "first_of (matches r (drop k s) (gs @ [take k s])) = Some m"
    and g: "\<forall>k'. 1 \<le> k' \<and> k' < k \<longrightarrow> matches r (drop k' s) (gs @ [take k' s]) = []" by blast
  have kn: "k \<le> ?n" using k(2) by simp
  have ks: "k \<le> length s" using kn length_takeWhile_le[of p s] by linarith
  have 1: "s = take k s @ drop k s" by simp
  have 2: "take k s \<noteq> []" using k(1) ks by auto
  have 3: "\<forall>c\<in>set (take k s). p c" using take_run[OF kn] by blast
  have 4: "\<forall>g' t'. s = g' @ t' \<and> g' \<noteq> [] \<and> length g' < length (take k s)
                 \<longrightarrow> matches r t' (gs @ [g']) = []"
  proof (intro allI impI)
    fix g' t' assume a: "s = g' @ t' \<and> g' \<noteq> [] \<and> length g' < length (take k s)"
    then have "1 \<le> length g'" by (cases g') auto
    moreover have "length g' < k" using a ks by simp
    ultimately have "matches r (drop (length g') s) (gs @ [take (length g') s]) = []"
      using g by simp
    moreover have "drop (length g') s = t'" "take (length g') s = g'" using a by simp_all
    ultimately show "matches r t' (gs @ [g']) = []" by simp
  qed
  from 1 2 3 4 f show ?thesis by blast
qed

lemma GroupPlus_first:
  assumes "first_of (matches (Group (Plus p)) s gs) = Some m"
  shows "takeWhile p s \<noteq> [] \<and> m = (dropWhile p s, gs @ [takeWhile p s])"
proof -
  let ?n = "length (takeWhile p s)"
  have e: "matches (Group (Plus p)) s gs
      = map (\<lambda>k. (drop k s, gs @ [take (length s - length (drop k s)) s])) (rev [1..<Suc ?n])"
    by (simp add: matches.simps comp_def del: upt_Suc)
  show ?thesis
  proof (cases "?n = 0")
    case True
    with e assms show ?thesis by simp
  next
    case False
    then have "1 \<le> ?n" by (simp add: Suc_le_eq)
    then have "rev [1..<Suc ?n] = ?n # rev [1..<?n]" by simp
    with e assms have m: "m = (drop ?n s, gs @ [take (length s - length (drop ?n s)) s])"
      by simp
    have "length s - length (drop ?n s) = ?n" using length_takeWhile_le[of p s] by simp
    with m have "m = (drop ?n s, gs @ [take ?n s])" by simp
    then have "m = (dropWhile p s, gs @ [takeWhile p s])"
      by (simp add: takeWhile_eq_take[symmetric] dropWhile_eq_drop[symmetric])
    with False show ?thesis by auto
  qed
qed

lemma block_pattern_parts:
  "block_pattern = Cat (Lit ''repo:'') (Cat (Plus isspace) value_pattern)"
  by (simp add: block_pattern_def value_pattern_def gap_pattern_def rev_pattern_def)

lemma isspace_LF: "isspace (CHR 0x0A)"
  by (simp add: isspace_def)

lemma rev_shape:
  "(rest, gs') \<in> set (matches rev_pattern t gs) \<longleftrightarrow>
     (\<exists>ws g. t = ''rev:'' @ ws @ g @ rest \<and> ws \<noteq> [] \<and> (\<forall>c\<in>set ws. isspace c)
        \<and> g \<noteq> [] \<and> (\<forall>c\<in>set g. \<not> isspace c) \<and> gs' = gs @ [g])"
proof -
  have "(rest, gs') \<in> set (matches rev_pattern t gs) \<longleftrightarrow>
     (\<exists>t1. t = ''rev:'' @ t1 \<and> (\<exists>ws t'. t1 = ws @ t' \<and> ws \<noteq> [] \<and> (\<forall>c\<in>set ws. isspace c)
        \<and> (\<exists>g. t' = g @ rest \<and> g \<noteq> [] \<and> (\<forall>c\<in>set g. \<not> isspace c) \<and> gs' = gs @ [g])))"
    by (simp only: rev_pattern_def Lit_Cat Plus_Cat group_run re_nonspace_def)
  also have "\<dots> \<longleftrightarrow> (\<exists>ws g. t = ''rev:'' @ ws @ g @ rest \<and> ws \<noteq> [] \<and> (\<forall>c\<in>set ws. isspace c)
        \<and> g \<noteq> [] \<and> (\<forall>c\<in>set g. \<not> isspace c) \<and> gs' = gs @ [g])"
    by blast
  finally show ?thesis .
qed

lemma gap_shape:
  "(rest, gs') \<in> set (matches gap_pattern t gs) \<longleftrightarrow>
     (\<exists>g2. rev_follows t g2 rest \<and> gs' = gs @ [g2])"
proof
  assume "(rest, gs') \<in> set (matches gap_pattern t gs)"
  then have "\<exists>ws2 t1. t = ws2 @ t1 \<and> (\<forall>c\<in>set ws2. isspace c) \<and>
      (\<exists>t2. t1 = [CHR 0x0A] @ t2 \<and>
        (\<exists>ws3 t3. t2 = ws3 @ t3 \<and> (\<forall>c\<in>set ws3. isspace c) \<and>
           (rest, gs') \<in> set (matches rev_pattern t3 gs)))"
    by (simp only: gap_pattern_def Star_Cat Lit_Cat)
  then obtain ws2 t1 t2 ws3 t3 where
    e: "t = ws2 @ t1" "t1 = [CHR 0x0A] @ t2" "t2 = ws3 @ t3"
    and c: "\<forall>c\<in>set ws2. isspace c" "\<forall>c\<in>set ws3. isspace c"
    and r: "(rest, gs') \<in> set (matches rev_pattern t3 gs)" by blast
  from r obtain ws4 g2 where
    r': "t3 = ''rev:'' @ ws4 @ g2 @ rest" "ws4 \<noteq> []" "\<forall>c\<in>set ws4. isspace c"
      "g2 \<noteq> []" "\<forall>c\<in>set g2. \<not> isspace c" "gs' = gs @ [g2]"
    unfolding rev_shape by blast
  have "t = (ws2 @ [CHR 0x0A] @ ws3) @ ''rev:'' @ ws4 @ g2 @ rest"
    by (simp only: e r'(1) append_assoc)
  moreover have "\<forall>c\<in>set (ws2 @ [CHR 0x0A] @ ws3). isspace c"
    using c isspace_LF by auto
  moreover have "CHR 0x0A \<in> set (ws2 @ [CHR 0x0A] @ ws3)" by simp
  ultimately have "rev_follows t g2 rest"
    unfolding rev_follows_def using r'(2-5) by blast
  with r'(6) show "\<exists>g2. rev_follows t g2 rest \<and> gs' = gs @ [g2]" by blast
next
  assume "\<exists>g2. rev_follows t g2 rest \<and> gs' = gs @ [g2]"
  then obtain g2 W ws4 where
    t: "t = W @ ''rev:'' @ ws4 @ g2 @ rest" and W: "\<forall>c\<in>set W. isspace c" "CHR 0x0A \<in> set W"
    and c: "ws4 \<noteq> []" "\<forall>c\<in>set ws4. isspace c" "g2 \<noteq> []" "\<forall>c\<in>set g2. \<not> isspace c"
    and g: "gs' = gs @ [g2]"
    unfolding rev_follows_def by blast
  from W(2) obtain ws2 ws3 where s: "W = ws2 @ CHR 0x0A # ws3" by (auto dest: split_list)
  have r: "(rest, gs') \<in> set (matches rev_pattern (''rev:'' @ ws4 @ g2 @ rest) gs)"
    unfolding rev_shape using c g by blast
  have "\<exists>ws2' t1. t = ws2' @ t1 \<and> (\<forall>c\<in>set ws2'. isspace c) \<and>
      (\<exists>t2. t1 = [CHR 0x0A] @ t2 \<and>
        (\<exists>ws3' t3. t2 = ws3' @ t3 \<and> (\<forall>c\<in>set ws3'. isspace c) \<and>
           (rest, gs') \<in> set (matches rev_pattern t3 gs)))"
    apply (rule exI[of _ ws2], rule exI[of _ "[CHR 0x0A] @ ws3 @ ''rev:'' @ ws4 @ g2 @ rest"])
    apply (intro conjI)
      apply (simp add: t s)
     apply (use W(1) s in simp)
    apply (rule exI[of _ "ws3 @ ''rev:'' @ ws4 @ g2 @ rest"])
    apply (intro conjI refl)
    apply (rule exI[of _ ws3], rule exI[of _ "''rev:'' @ ws4 @ g2 @ rest"])
    apply (intro conjI refl r)
    apply (use W(1) s in simp)
    done
  then show "(rest, gs') \<in> set (matches gap_pattern t gs)"
    by (simp only: gap_pattern_def Star_Cat Lit_Cat)
qed

lemma value_shape:
  "(rest, gs') \<in> set (matches value_pattern t gs) \<longleftrightarrow>
     (\<exists>g1 t' g2. t = g1 @ t' \<and> g1 \<noteq> [] \<and> CHR 0x0A \<notin> set g1
        \<and> rev_follows t' g2 rest \<and> gs' = gs @ [g1, g2])"
proof -
  have "(rest, gs') \<in> set (matches value_pattern t gs) \<longleftrightarrow>
     (\<exists>g1 t'. t = g1 @ t' \<and> g1 \<noteq> [] \<and> (\<forall>c\<in>set g1. c \<noteq> CHR 0x0A)
        \<and> (\<exists>g2. rev_follows t' g2 rest \<and> gs' = (gs @ [g1]) @ [g2]))"
    by (simp only: value_pattern_def Group_lazy_Cat gap_shape re_dot_def)
  also have "\<dots> \<longleftrightarrow> (\<exists>g1 t' g2. t = g1 @ t' \<and> g1 \<noteq> [] \<and> CHR 0x0A \<notin> set g1
        \<and> rev_follows t' g2 rest \<and> gs' = gs @ [g1, g2])"
    by (simp only: append_assoc append_Cons append_Nil) blast
  finally show ?thesis .
qed

lemma block_shape_iff:
  "(rest, gs) \<in> set (matches block_pattern s []) \<longleftrightarrow>
     (\<exists>ws1 g1 g2. block_shape s ws1 g1 g2 rest \<and> gs = [g1, g2])"
proof -
  have "(rest, gs) \<in> set (matches block_pattern s []) \<longleftrightarrow>
     (\<exists>t1. s = ''repo:'' @ t1 \<and> (\<exists>ws1 t2. t1 = ws1 @ t2 \<and> ws1 \<noteq> [] \<and> (\<forall>c\<in>set ws1. isspace c)
        \<and> (\<exists>g1 t' g2. t2 = g1 @ t' \<and> g1 \<noteq> [] \<and> CHR 0x0A \<notin> set g1
        \<and> rev_follows t' g2 rest \<and> gs = [] @ [g1, g2])))"
    by (simp only: block_pattern_parts Lit_Cat Plus_Cat value_shape)
  also have "\<dots> \<longleftrightarrow> (\<exists>ws1 g1 g2. block_shape s ws1 g1 g2 rest \<and> gs = [g1, g2])"
    unfolding block_shape_def by (simp only: append_Nil) blast
  finally show ?thesis .
qed

lemma rev_first:
  assumes "first_of (matches rev_pattern t gs) = Some (rest, gs')"
  shows "case rest of [] \<Rightarrow> True | c # _ \<Rightarrow> isspace c"
proof -
  from assms obtain t1 where
    1: "first_of (matches (Cat (Plus isspace) (Group (Plus re_nonspace))) t1 gs) = Some (rest, gs')"
    unfolding rev_pattern_def by (blast dest: Lit_first)
  from Plus_first[OF 1] obtain t2 where
    2: "first_of (matches (Group (Plus re_nonspace)) t2 gs) = Some (rest, gs')" by blast
  from GroupPlus_first[OF 2] have r: "rest = dropWhile re_nonspace t2" by simp
  show ?thesis
  proof (cases rest)
    case Nil
    then show ?thesis by simp
  next
    case (Cons c cs)
    with r have d: "dropWhile re_nonspace t2 = c # cs" by simp
    have "\<not> re_nonspace (hd (dropWhile re_nonspace t2))"
      by (rule hd_dropWhile) (simp add: d)
    then have "isspace c" by (simp add: d re_nonspace_def)
    then show ?thesis by (simp add: Cons)
  qed
qed

lemma gap_first:
  assumes "first_of (matches gap_pattern t gs) = Some (rest, gs')"
  shows "\<exists>g2. rev_follows t g2 rest \<and> gs' = gs @ [g2]
           \<and> (case rest of [] \<Rightarrow> True | c # _ \<Rightarrow> isspace c)"
proof -
  from first_of_in[OF assms] obtain g2 where g: "rev_follows t g2 rest" "gs' = gs @ [g2]"
    unfolding gap_shape by blast
  from assms obtain t1 where
    1: "first_of (matches (Cat (Lit [CHR 0x0A]) (Cat (Star isspace) rev_pattern)) t1 gs)
         = Some (rest, gs')"
    unfolding gap_pattern_def by (blast dest: Star_first)
  from Lit_first[OF 1] obtain t2 where
    2: "first_of (matches (Cat (Star isspace) rev_pattern) t2 gs) = Some (rest, gs')" by blast
  from Star_first[OF 2] obtain t3 where
    3: "first_of (matches rev_pattern t3 gs) = Some (rest, gs')" by blast
  from rev_first[OF 3] g show ?thesis by blast
qed

lemma value_first:
  assumes "first_of (matches value_pattern t gs) = Some (rest, gs')"
  shows "\<exists>g1 t' g2. t = g1 @ t' \<and> g1 \<noteq> [] \<and> CHR 0x0A \<notin> set g1
           \<and> rev_follows t' g2 rest \<and> gs' = gs @ [g1, g2]
           \<and> (case rest of [] \<Rightarrow> True | c # _ \<Rightarrow> isspace c)
           \<and> (\<forall>g1' t'' g2' rest'. t = g1' @ t'' \<and> g1' \<noteq> [] \<and> length g1' < length g1
                 \<longrightarrow> \<not> rev_follows t'' g2' rest')"
proof -
  from Lazy_first[OF assms[unfolded value_pattern_def]] obtain g1 t' where
    t: "t = g1 @ t'" "g1 \<noteq> []" "\<forall>c\<in>set g1. re_dot c"
    and f: "first_of (matches gap_pattern t' (gs @ [g1])) = Some (rest, gs')"
    and l: "\<forall>g' t''. t = g' @ t'' \<and> g' \<noteq> [] \<and> length g' < length g1
              \<longrightarrow> matches gap_pattern t'' (gs @ [g']) = []" by blast
  from gap_first[OF f] obtain g2 where
    g: "rev_follows t' g2 rest" "gs' = (gs @ [g1]) @ [g2]"
       "case rest of [] \<Rightarrow> True | c # _ \<Rightarrow> isspace c" by blast
  have n: "CHR 0x0A \<notin> set g1" using t(3) by (auto simp: re_dot_def)
  have m: "\<forall>g1' t'' g2' rest'. t = g1' @ t'' \<and> g1' \<noteq> [] \<and> length g1' < length g1
                 \<longrightarrow> \<not> rev_follows t'' g2' rest'"
  proof (intro allI impI notI)
    fix g1' t'' g2' rest'
    assume a: "t = g1' @ t'' \<and> g1' \<noteq> [] \<and> length g1' < length g1"
      and r: "rev_follows t'' g2' rest'"
    from a l have "matches gap_pattern t'' (gs @ [g1']) = []" by blast
    moreover from r have "(rest', (gs @ [g1']) @ [g2']) \<in> set (matches gap_pattern t'' (gs @ [g1']))"
      unfolding gap_shape by blast
    ultimately show False by simp
  qed
  from g(2) have "gs' = gs @ [g1, g2]" by simp
  with t(1,2) n g(1,3) m show ?thesis by blast
qed

lemma block_first:
  assumes "match_here block_pattern s = Some (rest, gs)"
  shows "\<exists>g1 g2. gs = [g1, g2] \<and> first_block s g1 g2 rest"
proof -
  from assms have "first_of (matches (Cat (Lit ''repo:'') (Cat (Plus isspace) value_pattern)) s [])
      = Some (rest, gs)"
    by (simp only: match_here_first block_pattern_parts)
  from Lit_first[OF this] obtain t1 where s: "s = ''repo:'' @ t1"
    and 1: "first_of (matches (Cat (Plus isspace) value_pattern) t1 []) = Some (rest, gs)"
    by blast
  from Plus_first[OF 1] obtain ws1 t2 where
    t1: "t1 = ws1 @ t2" "ws1 \<noteq> []" "\<forall>c\<in>set ws1. isspace c"
    and 2: "first_of (matches value_pattern t2 []) = Some (rest, gs)"
    and gr: "\<forall>w' t'. t1 = w' @ t' \<and> (\<forall>c\<in>set w'. isspace c) \<and> length ws1 < length w'
              \<longrightarrow> matches value_pattern t' [] = []" by blast
  from value_first[OF 2] obtain g1 t' g2 where
    t2: "t2 = g1 @ t'" "g1 \<noteq> []" "CHR 0x0A \<notin> set g1"
    and rf: "rev_follows t' g2 rest" and gs: "gs = [] @ [g1, g2]"
    and mx: "case rest of [] \<Rightarrow> True | c # _ \<Rightarrow> isspace c"
    and lz: "\<forall>g1' t'' g2' rest'. t2 = g1' @ t'' \<and> g1' \<noteq> [] \<and> length g1' < length g1
                 \<longrightarrow> \<not> rev_follows t'' g2' rest'" by blast
  have sh: "block_shape s ws1 g1 g2 rest"
    unfolding block_shape_def using s t1 t2 rf by auto
  have pr: "\<forall>ws1' g1' g2' rest'. block_shape s ws1' g1' g2' rest' \<longrightarrow>
      length ws1' \<le> length ws1 \<and> (length ws1' = length ws1 \<longrightarrow> length g1 \<le> length g1')"
  proof (intro allI impI)
    fix ws1' g1' g2' rest' assume "block_shape s ws1' g1' g2' rest'"
    then obtain t'' where b: "s = ''repo:'' @ ws1' @ g1' @ t''" "ws1' \<noteq> []"
      "\<forall>c\<in>set ws1'. isspace c" "g1' \<noteq> []" "CHR 0x0A \<notin> set g1'" "rev_follows t'' g2' rest'"
      unfolding block_shape_def by blast
    from b(1) s have e: "t1 = ws1' @ (g1' @ t'')" by simp
    have vs: "(rest', [] @ [g1', g2']) \<in> set (matches value_pattern (g1' @ t'') [])"
      unfolding value_shape using b(4,5,6) by blast
    have le: "length ws1' \<le> length ws1"
    proof (rule ccontr)
      assume "\<not> length ws1' \<le> length ws1"
      then have "length ws1 < length ws1'" by simp
      with gr e b(3) have "matches value_pattern (g1' @ t'') [] = []" by blast
      with vs show False by simp
    qed
    have "length ws1' = length ws1 \<longrightarrow> length g1 \<le> length g1'"
    proof (intro impI, rule ccontr)
      assume eq: "length ws1' = length ws1" and "\<not> length g1 \<le> length g1'"
      then have lt: "length g1' < length g1" by simp
      from e t1(1) eq have "t2 = g1' @ t''" by simp
      with lz b(4) lt have "\<not> rev_follows t'' g2' rest'" by blast
      with b(6) show False by simp
    qed
    with le show "length ws1' \<le> length ws1 \<and> (length ws1' = length ws1 \<longrightarrow> length g1 \<le> length g1')"
      by simp
  qed
  from sh mx pr have "first_block s g1 g2 rest" unfolding first_block_def by blast
  with gs show ?thesis by simp
qed

lemma takeWhile_run:
  assumes "\<forall>c\<in>set w. p c" and "case x of [] \<Rightarrow> True | c # _ \<Rightarrow> \<not> p c"
  shows "takeWhile p (w @ x) = w"
proof -
  have "takeWhile p x = []" using assms(2) by (cases x) auto
  with assms(1) show ?thesis by (simp add: takeWhile_append2)
qed

lemma run_unique:
  assumes "w @ x = w' @ x'" and "\<forall>c\<in>set w. p c" and "\<forall>c\<in>set w'. p c"
    and "case x of [] \<Rightarrow> True | c # _ \<Rightarrow> \<not> p c"
    and "case x' of [] \<Rightarrow> True | c # _ \<Rightarrow> \<not> p c"
  shows "w = w' \<and> x = x'"
proof -
  have "w = takeWhile p (w @ x)" using takeWhile_run[OF assms(2,4)] by simp
  also have "\<dots> = takeWhile p (w' @ x')" by (simp only: assms(1))
  also have "\<dots> = w'" by (rule takeWhile_run[OF assms(3,5)])
  finally have "w = w'" .
  with assms(1) show ?thesis by simp
qed

lemma rev_follows_unique:
  assumes "rev_follows t g2 rest" and "case rest of [] \<Rightarrow> True | c # _ \<Rightarrow> isspace c"
    and "rev_follows t g2' rest'" and "case rest' of [] \<Rightarrow> True | c # _ \<Rightarrow> isspace c"
  shows "g2 = g2' \<and> rest = rest'"
proof -
  from assms(1) obtain W ws4 where
    a: "t = W @ ''rev:'' @ ws4 @ g2 @ rest" "\<forall>c\<in>set W. isspace c"
       "\<forall>c\<in>set ws4. isspace c" "g2 \<noteq> []" "\<forall>c\<in>set g2. \<not> isspace c"
    unfolding rev_follows_def by blast
  from assms(3) obtain W' ws4' where
    b: "t = W' @ ''rev:'' @ ws4' @ g2' @ rest'" "\<forall>c\<in>set W'. isspace c"
       "\<forall>c\<in>set ws4'. isspace c" "g2' \<noteq> []" "\<forall>c\<in>set g2'. \<not> isspace c"
    unfolding rev_follows_def by blast
  have r: "\<not> isspace (CHR ''r'')" by (simp add: isspace_def)
  have "W @ (''rev:'' @ ws4 @ g2 @ rest) = W' @ (''rev:'' @ ws4' @ g2' @ rest')"
    using a(1) b(1) by simp
  from run_unique[OF this a(2) b(2)] r
  have 1: "ws4 @ (g2 @ rest) = ws4' @ (g2' @ rest')" by simp
  have h: "case g2 @ rest of [] \<Rightarrow> True | c # _ \<Rightarrow> \<not> isspace c"
    using a(4,5) by (cases g2) auto
  have h': "case g2' @ rest' of [] \<Rightarrow> True | c # _ \<Rightarrow> \<not> isspace c"
    using b(4,5) by (cases g2') auto
  from run_unique[OF 1 a(3) b(3) h h'] have 2: "g2 @ rest = g2' @ rest'" by simp
  have k: "case rest of [] \<Rightarrow> True | c # _ \<Rightarrow> \<not> \<not> isspace c"
    using assms(2) by (cases rest) auto
  have k': "case rest' of [] \<Rightarrow> True | c # _ \<Rightarrow> \<not> \<not> isspace c"
    using assms(4) by (cases rest') auto
  from run_unique[OF 2, of "\<lambda>c. \<not> isspace c", OF a(5) b(5) k k'] show ?thesis .
qed

lemma first_block_unique:
  assumes "first_block s g1 g2 rest" and "first_block s g1' g2' rest'"
  shows "g1 = g1' \<and> g2 = g2' \<and> rest = rest'"
proof -
  from assms(1) obtain ws1 where
    a: "block_shape s ws1 g1 g2 rest" "case rest of [] \<Rightarrow> True | c # _ \<Rightarrow> isspace c"
    and pa: "\<forall>ws1' g1' g2' rest'. block_shape s ws1' g1' g2' rest' \<longrightarrow>
      length ws1' \<le> length ws1 \<and> (length ws1' = length ws1 \<longrightarrow> length g1 \<le> length g1')"
    unfolding first_block_def by blast
  from assms(2) obtain ws1' where
    b: "block_shape s ws1' g1' g2' rest'" "case rest' of [] \<Rightarrow> True | c # _ \<Rightarrow> isspace c"
    and pb: "\<forall>ws1'' g1'' g2'' rest''. block_shape s ws1'' g1'' g2'' rest'' \<longrightarrow>
      length ws1'' \<le> length ws1' \<and> (length ws1'' = length ws1' \<longrightarrow> length g1' \<le> length g1'')"
    unfolding first_block_def by blast
  from pa b(1) have 1: "length ws1' \<le> length ws1"
    and 2: "length ws1' = length ws1 \<longrightarrow> length g1 \<le> length g1'" by blast+
  from pb a(1) have 3: "length ws1 \<le> length ws1'"
    and 4: "length ws1 = length ws1' \<longrightarrow> length g1' \<le> length g1" by blast+
  from 1 3 have lw: "length ws1 = length ws1'" by simp
  with 2 4 have lg: "length g1 = length g1'" by simp
  from a(1) obtain t where sa: "s = ''repo:'' @ ws1 @ g1 @ t" and ra: "rev_follows t g2 rest"
    unfolding block_shape_def by blast
  from b(1) obtain t' where sb: "s = ''repo:'' @ ws1' @ g1' @ t'" and rb: "rev_follows t' g2' rest'"
    unfolding block_shape_def by blast
  from sa sb have "ws1 @ (g1 @ t) = ws1' @ (g1' @ t')" by simp
  with lw have "ws1 = ws1'" "g1 @ t = g1' @ t'" by simp_all
  with lg have g: "g1 = g1'" and t: "t = t'" by simp_all
  from rev_follows_unique[OF ra a(2) rb[folded t] b(2)] g show ?thesis by simp
qed

lemma match_here_block_None: "match_here block_pattern s = None \<longleftrightarrow> \<not> block_starts s"
proof -
  have "matches block_pattern s [] = [] \<longleftrightarrow> \<not> block_starts s"
  proof
    assume e: "matches block_pattern s [] = []"
    show "\<not> block_starts s"
    proof
      assume "block_starts s"
      then obtain ws1 g1 g2 rest where "block_shape s ws1 g1 g2 rest"
        unfolding block_starts_def by blast
      then have "(rest, [g1, g2]) \<in> set (matches block_pattern s [])"
        unfolding block_shape_iff by blast
      with e show False by simp
    qed
  next
    assume n: "\<not> block_starts s"
    show "matches block_pattern s [] = []"
    proof (cases "matches block_pattern s []")
      case Nil
      then show ?thesis .
    next
      case (Cons m ms)
      then have "(fst m, snd m) \<in> set (matches block_pattern s [])" by simp
      then have "block_starts s" unfolding block_shape_iff block_starts_def by blast
      with n show ?thesis by simp
    qed
  qed
  then show ?thesis by (simp add: match_here_None)
qed

lemma match_here_block_iff:
  "match_here block_pattern s = Some (rest, gs) \<longleftrightarrow>
     (\<exists>g1 g2. gs = [g1, g2] \<and> first_block s g1 g2 rest)"
proof
  assume "match_here block_pattern s = Some (rest, gs)"
  then show "\<exists>g1 g2. gs = [g1, g2] \<and> first_block s g1 g2 rest" by (rule block_first)
next
  assume "\<exists>g1 g2. gs = [g1, g2] \<and> first_block s g1 g2 rest"
  then obtain g1 g2 where gs: "gs = [g1, g2]" and f: "first_block s g1 g2 rest" by blast
  then have "block_starts s" unfolding first_block_def block_starts_def by blast
  then have "match_here block_pattern s \<noteq> None" by (simp add: match_here_block_None)
  then obtain rest' gs' where m: "match_here block_pattern s = Some (rest', gs')" by auto
  from block_first[OF m] obtain g1' g2' where
    gs': "gs' = [g1', g2']" and f': "first_block s g1' g2' rest'" by blast
  from first_block_unique[OF f f'] gs gs' m
  show "match_here block_pattern s = Some (rest, gs)" by simp
qed

lemma first_block_consumes:
  assumes "first_block s g1 g2 rest"
  shows "\<exists>blk. s = blk @ rest \<and> blk \<noteq> []"
proof -
  from assms obtain ws1 t W ws4 where "s = ''repo:'' @ ws1 @ g1 @ t"
    "t = W @ ''rev:'' @ ws4 @ g2 @ rest"
    unfolding first_block_def block_shape_def rev_follows_def by blast
  then have "s = (''repo:'' @ ws1 @ g1 @ W @ ''rev:'' @ ws4 @ g2) @ rest" by simp
  then show ?thesis by blast
qed

lemma finditer_from_skip:
  "n \<le> length s \<Longrightarrow> finditer_from r n s = finditer_from r 0 (drop n s)"
proof (induction s arbitrary: n)
  case Nil
  then show ?case by simp
next
  case (Cons c cs)
  show ?case
  proof (cases n)
    case 0
    then show ?thesis by simp
  next
    case (Suc k)
    with Cons.prems have "k \<le> length cs" by simp
    from Cons.IH[OF this] Suc show ?thesis by simp
  qed
qed

lemma finditer_no_match:
  "match_here r (c # cs) = None \<Longrightarrow> finditer r (c # cs) = finditer r cs"
  by (simp add: finditer_def)

lemma finditer_match:
  assumes "match_here r s = Some (rest, gs)" and "s = blk @ rest" and "blk \<noteq> []"
  shows "finditer r s = gs # finditer r rest"
proof -
  from assms(3) obtain b bs where blk: "blk = b # bs" by (cases blk) auto
  define cs where "cs = bs @ rest"
  have s: "s = b # cs" using assms(2) blk by (simp add: cs_def)
  have cs: "cs = bs @ rest" by (rule cs_def)
  have l: "length cs - length rest = length bs" using cs by simp
  have "finditer r s = gs # finditer_from r (length bs) cs"
    using assms(1) unfolding s finditer_def by (simp add: l)
  also have "finditer_from r (length bs) cs = finditer_from r 0 (drop (length bs) cs)"
    by (rule finditer_from_skip) (simp add: cs)
  also have "drop (length bs) cs = rest" by (simp add: cs)
  finally show ?thesis by (simp add: finditer_def)
qed

lemma not_block_starts_Nil: "\<not> block_starts []"
  by (simp add: block_starts_def block_shape_def)

lemma finditer_block_Nil: "finditer block_pattern [] = []"
proof -
  have "match_here block_pattern [] = None"
    by (simp only: match_here_block_None not_block_starts_Nil not_False_eq_True)
  then show ?thesis by (simp add: finditer_def)
qed

lemma block_scan_skip:
  assumes "\<not> block_starts (c # cs)" and "block_scan cs recs"
  shows "block_scan (c # cs) recs"
  using assms(2)
proof (cases rule: block_scan.cases)
  case no_block
  have "\<forall>pre suf. c # cs = pre @ suf \<longrightarrow> \<not> block_starts suf"
  proof (intro allI impI)
    fix pre suf assume e: "c # cs = pre @ suf"
    show "\<not> block_starts suf"
    proof (cases pre)
      case Nil
      with e assms(1) show ?thesis by simp
    next
      case (Cons p ps)
      with e have "cs = ps @ suf" by simp
      with no_block(2) show ?thesis by blast
    qed
  qed
  then have "block_scan (c # cs) []" by (rule block_scan.no_block)
  with no_block(1) show ?thesis by simp
next
  case (next_block gap s g1 g2 rest recs')
  have e: "c # cs = (c # gap) @ s" using next_block(2) by simp
  have "\<forall>pre suf. c # gap = pre @ suf \<longrightarrow> suf \<noteq> [] \<longrightarrow> \<not> block_starts (suf @ s)"
  proof (intro allI impI)
    fix pre suf assume g: "c # gap = pre @ suf" and ne: "suf \<noteq> []"
    show "\<not> block_starts (suf @ s)"
    proof (cases pre)
      case Nil
      with g e assms(1) show ?thesis by simp
    next
      case (Cons p ps)
      with g have "gap = ps @ suf" by simp
      with next_block(3) ne show ?thesis by blast
    qed
  qed
  from block_scan.next_block[OF e this next_block(4,5)] next_block(1) show ?thesis by simp
qed

lemma block_scan_finditer:
  "block_scan doc (map (\<lambda>gs. (gs ! 0, gs ! 1)) (finditer block_pattern doc))"
proof (induction doc rule: length_induct)
  case (1 doc)
  show ?case
  proof (cases doc)
    case Nil
    have "\<forall>pre suf. ([]::string) = pre @ suf \<longrightarrow> \<not> block_starts suf"
      using not_block_starts_Nil by simp
    then have "block_scan [] []" by (rule block_scan.no_block)
    with Nil show ?thesis by (simp add: finditer_block_Nil)
  next
    case (Cons c cs)
    show ?thesis
    proof (cases "match_here block_pattern (c # cs)")
      case None
      then have n: "\<not> block_starts (c # cs)" by (simp add: match_here_block_None)
      have "length cs < length doc" using Cons by simp
      with 1 have "block_scan cs (map (\<lambda>gs. (gs ! 0, gs ! 1)) (finditer block_pattern cs))"
        by blast
      from block_scan_skip[OF n this] None Cons show ?thesis
        by (simp add: finditer_no_match)
    next
      case (Some m)
      obtain rest gs where m: "m = (rest, gs)" by (cases m)
      with Some have mh: "match_here block_pattern doc = Some (rest, gs)" using Cons by simp
      then obtain g1 g2 where gs: "gs = [g1, g2]" and fb: "first_block doc g1 g2 rest"
        unfolding match_here_block_iff by blast
      from first_block_consumes[OF fb] obtain blk where b: "doc = blk @ rest" "blk \<noteq> []"
        by blast
      have fi: "finditer block_pattern doc = gs # finditer block_pattern rest"
        by (rule finditer_match[OF mh b])
      have "length rest < length doc" using b by simp
      with 1 have r: "block_scan rest (map (\<lambda>gs. (gs ! 0, gs ! 1)) (finditer block_pattern rest))"
        by blast
      have e: "doc = [] @ doc" by simp
      have "\<forall>pre suf. ([]::string) = pre @ suf \<longrightarrow> suf \<noteq> [] \<longrightarrow> \<not> block_starts (suf @ doc)"
        by simp
      from block_scan.next_block[OF e this fb r] show ?thesis by (simp add: fi gs)
    qed
  qed
qed

lemma block_scan_unique:
  "block_scan doc a \<Longrightarrow> block_scan doc b \<Longrightarrow> a = b"
proof (induction arbitrary: b rule: block_scan.induct)
  case (no_block doc)
  from no_block.prems show ?case
  proof (cases rule: block_scan.cases)
    case no_block
    then show ?thesis by simp
  next
    case (next_block gap s g1 g2 rest recs)
    from next_block(4) have "block_starts s" unfolding first_block_def block_starts_def by blast
    with no_block.hyps next_block(2) show ?thesis by blast
  qed
next
  case (next_block doc gap s g1 g2 rest recs)
  have bs: "block_starts s" using next_block.hyps(3) unfolding first_block_def block_starts_def by blast
  from next_block.prems show ?case
  proof (cases rule: block_scan.cases)
    case no_block
    with bs next_block.hyps(1) show ?thesis by blast
  next
    case nb: (next_block gap' s' g1' g2' rest' recs')
    have bs': "block_starts s'" using nb(4) unfolding first_block_def block_starts_def by blast
    have eq: "gap @ s = gap' @ s'" using next_block.hyps(1) nb(2) by simp
    have "length gap = length gap'"
    proof (rule ccontr)
      assume "length gap \<noteq> length gap'"
      then consider "length gap < length gap'" | "length gap' < length gap" by linarith
      then show False
      proof cases
        case 1
        with eq obtain suf where "gap' = gap @ suf" "suf \<noteq> []" "s = suf @ s'"
          by (auto simp: append_eq_append_conv2)
        with nb(3) bs show False by blast
      next
        case 2
        with eq obtain suf where "gap = gap' @ suf" "suf \<noteq> []" "s' = suf @ s"
          by (auto simp: append_eq_append_conv2)
        with next_block.hyps(2) bs' show False by blast
      qed
    qed
    with eq have "s = s'" by simp
    with first_block_unique[OF next_block.hyps(3)] nb(4)
    have u: "g1 = g1'" "g2 = g2'" "rest = rest'" by simp_all
    with nb(5) have "block_scan rest recs'" by simp
    from next_block.IH[OF this] u nb(1) show ?thesis by simp
  qed
qed

section \<open>Identity normalization: idempotence and the reference definition\<close>

text \<open>
  C1, as stated: normalization is idempotent, \<open>normalize (normalize r) = normalize r\<close> for every
  reference \<open>r\<close>. This fails on the ordinary hosted reference: its normal form
  \<^verbatim>\<open>psf/black\<close> has no hosting-site marker any more, so a second pass keeps only the text
  after the last separator, \<^verbatim>\<open>black\<close>.
\<close>

theorem normalize_not_idempotent:
  "normalize_repo_url (normalize_repo_url ''https://github.com/psf/black'')
     \<noteq> normalize_repo_url ''https://github.com/psf/black''"
  by (simp add: normalize_repo_url_def strip_def isspace_def str_split_def)

text \<open>
  C1, amended: \<open>normalize (normalize r) = normalize r\<close> holds for every reference \<open>r\<close> whose
  normal form is a plain name: it contains no path separator and no \<^verbatim>\<open>.git\<close>, and has no
  leading or trailing whitespace.
\<close>

theorem normalize_idempotent_on_plain_names:
  assumes "CHR ''/'' \<notin> set (normalize_repo_url r)"
    and "\<not> str_contains ''.git'' (normalize_repo_url r)"
    and "strip (normalize_repo_url r) = normalize_repo_url r"
  shows "normalize_repo_url (normalize_repo_url r) = normalize_repo_url r"
  using assms by (rule normalize_fixed)

theorem normalize_idempotent_on_plain_names_witness:
  "CHR ''/'' \<notin> set (normalize_repo_url ''https://example.org/tools/black.git'')
   \<and> \<not> str_contains ''.git'' (normalize_repo_url ''https://example.org/tools/black.git'')
   \<and> strip (normalize_repo_url ''https://example.org/tools/black.git'')
       = normalize_repo_url ''https://example.org/tools/black.git''
   \<and> normalize_repo_url (normalize_repo_url ''https://example.org/tools/black.git'') = ''black''"
proof -
  have n: "normalize_repo_url ''https://example.org/tools/black.git'' = ''black''"
    by (simp add: normalize_repo_url_def strip_def isspace_def str_split_def)
  have a: "CHR ''/'' \<notin> set (normalize_repo_url ''https://example.org/tools/black.git'')"
    by (simp add: n)
  have b: "\<not> str_contains ''.git'' (normalize_repo_url ''https://example.org/tools/black.git'')"
    by (simp add: n)
  have c: "strip (normalize_repo_url ''https://example.org/tools/black.git'')
       = normalize_repo_url ''https://example.org/tools/black.git''"
    by (simp add: n strip_def isspace_def)
  from normalize_idempotent_on_plain_names[OF a b c] a b c show ?thesis
    by (simp add: n)
qed

text \<open>
  C2: normalization equals the reference definition, which strips \<^verbatim>\<open>.git\<close> only at the end
  of the reference. The source removes every occurrence of \<^verbatim>\<open>.git\<close> (its comment reads
  ``Remove .git suffix''), so the identity of a repository whose name contains \<^verbatim>\<open>.git\<close>,
  such as a \<^verbatim>\<open>.github.io\<close> site, loses these four characters.
\<close>

theorem normalize_removes_inner_git:
  "normalize_repo_url ''https://github.com/octocat/octocat.github.io'' = ''octocat/octocathub.io''
   \<and> normalize_reference ''https://github.com/octocat/octocat.github.io''
       = ''octocat/octocat.github.io''"
  by (simp add: normalize_repo_url_def normalize_reference_def strip_git_suffix_def
      strip_def isspace_def str_split_def suffix_to_prefix)

section \<open>The config parser: what a revision line binds\<close>

text \<open>
  C6, as stated: a repository-reference line followed by two revision lines binds the first
  revision to that reference and the second revision line binds nothing. The loop binds
  only under \<^verbatim>\<open>if current_repo:\<close>, and a reference that ends in a separator, such as
  \<^verbatim>\<open>https://gitlab.com/pycqa/flake8/\<close>, has the empty string as its identity, which is false
  in Python: then neither revision is bound.
\<close>

theorem empty_identity_binds_nothing:
  "repo_line ''- repo: https://gitlab.com/pycqa/flake8/'' = Some ''https://gitlab.com/pycqa/flake8/''
   \<and> normalize_repo_url ''https://gitlab.com/pycqa/flake8/'' = []
   \<and> rev_line ''  rev: v1'' = Some ''v1'' \<and> rev_line ''  rev: v2'' = Some ''v2''
   \<and> parse_lines (None, []) [''- repo: https://gitlab.com/pycqa/flake8/'', ''  rev: v1'', ''  rev: v2'']
       = (Some [], [])
   \<and> parse_config_text ''- repo: https://gitlab.com/pycqa/flake8/\<newline>  rev: v1\<newline>  rev: v2\<newline>'' = []"
  by code_simp

text \<open>
  C6, amended: a revision token is bound only when a pending identity is set, and binding
  clears the pending identity. A repository-reference line whose normalized identity is not
  empty, followed by two revision lines, binds the first revision to that identity and
  leaves no pending identity; a revision line met without pending identity changes
  nothing; and no line changes the map while the pending identity is \<^verbatim>\<open>None\<close> or empty.
\<close>

theorem first_revision_binds_once:
  assumes "repo_line l0 = Some u" and "normalize_repo_url u \<noteq> []"
    and "rev_line l1 = Some r1" and "rev_line l2 = Some r2"
  shows "parse_lines (cur, tools) [l0, l1, l2] = (None, dict_set tools (normalize_repo_url u) r1)
       \<and> parse_line (None, tools') l2 = (None, tools')
       \<and> parse_line (Some (normalize_repo_url u), tools') l1
           = (None, dict_set tools' (normalize_repo_url u) r1)
       \<and> (\<not> truthy cur' \<longrightarrow> snd (parse_line (cur', tools') l) = tools')"
proof -
  have n1: "repo_line l1 = None" and n2: "repo_line l2 = None"
    using assms(3,4) by (simp_all add: rev_line_not_repo)
  have s0: "parse_line (cur, tools) l0 = (Some (normalize_repo_url u), tools)"
    using assms(1) by (rule parse_line_repo)
  have s1: "parse_line (Some (normalize_repo_url u), t) l1
      = (None, dict_set t (normalize_repo_url u) r1)" for t
    using assms(2,3) by (rule parse_line_rev[rotated])
  have s2: "parse_line (None, t) l2 = (None, t)" for t
    using n2 by (simp add: parse_line_idle truthy_def)
  have s3: "\<not> truthy cur' \<longrightarrow> snd (parse_line (cur', tools') l) = tools'"
    by (simp add: parse_line_cases split: option.splits)
  show ?thesis
    using s3 by (simp add: parse_lines_Cons parse_lines_Nil s0 s1 s2)
qed

text \<open>
  The hypotheses of C6 hold of the reference \<^verbatim>\<open>https://github.com/psf/black\<close> followed by the
  revision lines \<^verbatim>\<open>rev: 24.4.0\<close> and \<^verbatim>\<open>rev: 24.3.0\<close>.
\<close>

theorem first_revision_binds_once_witness:
  "repo_line ''- repo: https://github.com/psf/black'' = Some ''https://github.com/psf/black''
   \<and> normalize_repo_url ''https://github.com/psf/black'' \<noteq> []
   \<and> rev_line ''  rev: 24.4.0'' = Some ''24.4.0'' \<and> rev_line ''  rev: 24.3.0'' = Some ''24.3.0''
   \<and> parse_lines (None, [])
        [''- repo: https://github.com/psf/black'', ''  rev: 24.4.0'', ''  rev: 24.3.0'']
       = (None, [(''psf/black'', ''24.4.0'')])"
proof -
  have h0: "repo_line ''- repo: https://github.com/psf/black''
      = Some ''https://github.com/psf/black''" by code_simp
  have n: "normalize_repo_url ''https://github.com/psf/black'' = ''psf/black''" by code_simp
  then have h1: "normalize_repo_url ''https://github.com/psf/black'' \<noteq> []" by simp
  have h2: "rev_line ''  rev: 24.4.0'' = Some ''24.4.0''" by code_simp
  have h3: "rev_line ''  rev: 24.3.0'' = Some ''24.3.0''" by code_simp
  from first_revision_binds_once[OF h0 h1 h2 h3, of None "[]" "[]"]
  show ?thesis using h0 h1 h2 h3 by (simp add: n dict_set_def)
qed

text \<open>
  C8: a repository-reference line with no revision line before the next
  repository-reference line contributes no entry: the later reference replaces the
  pending identity, the map is unchanged, and the rest of the parse is the one of the
  config without the dangling line.
\<close>

theorem dangling_reference_dropped:
  assumes "repo_line l0 = Some u0"
    and "\<forall>l\<in>set mid. repo_line l = None \<and> rev_line l = None"
    and "repo_line l1 = Some u1"
  shows "parse_lines (cur, tools) (l0 # mid @ [l1]) = (Some (normalize_repo_url u1), tools)
       \<and> parse_lines (cur, tools) (l0 # mid @ l1 # post) = parse_lines (cur, tools) (l1 # post)"
proof -
  have a: "parse_lines (cur, tools) (l0 # mid) = (Some (normalize_repo_url u0), tools)"
    using assms(1,2) by (simp add: parse_lines_Cons parse_line_repo parse_lines_other)
  have "parse_lines (cur, tools) ((l0 # mid) @ [l1])
      = parse_lines (parse_lines (cur, tools) (l0 # mid)) [l1]"
    by (rule parse_lines_append)
  also have "\<dots> = parse_lines (Some (normalize_repo_url u0), tools) [l1]"
    by (simp only: a)
  also have "\<dots> = (Some (normalize_repo_url u1), tools)"
    using assms(3) by (simp add: parse_lines_Cons parse_lines_Nil parse_line_repo)
  finally have b: "parse_lines (cur, tools) ((l0 # mid) @ [l1])
      = (Some (normalize_repo_url u1), tools)" .
  have "parse_lines (cur, tools) (((l0 # mid) @ [l1]) @ post)
      = parse_lines (parse_lines (cur, tools) ((l0 # mid) @ [l1])) post"
    by (rule parse_lines_append)
  also have "\<dots> = parse_lines (Some (normalize_repo_url u1), tools) post"
    by (simp only: b)
  also have "\<dots> = parse_lines (cur, tools) (l1 # post)"
    using assms(3) by (simp add: parse_lines_Cons parse_line_repo)
  finally have c: "parse_lines (cur, tools) (((l0 # mid) @ [l1]) @ post)
      = parse_lines (cur, tools) (l1 # post)" .
  from b c show ?thesis by simp
qed

text \<open>
  The hypotheses of C8 hold of a reference line, a comment line and a second reference
  line.
\<close>

theorem dangling_reference_dropped_witness:
  "repo_line ''- repo: https://github.com/acme/dangling'' = Some ''https://github.com/acme/dangling''
   \<and> repo_line ''  # no revision here'' = None \<and> rev_line ''  # no revision here'' = None
   \<and> repo_line ''- repo: https://github.com/psf/black'' = Some ''https://github.com/psf/black''
   \<and> parse_lines (None, [])
        [''- repo: https://github.com/acme/dangling'', ''  # no revision here'',
         ''- repo: https://github.com/psf/black'']
       = (Some ''psf/black'', [])
   \<and> parse_lines (None, [])
        [''- repo: https://github.com/acme/dangling'', ''  # no revision here'',
         ''- repo: https://github.com/psf/black'', ''  rev: 24.4.0'']
       = (None, [(''psf/black'', ''24.4.0'')])"
proof -
  have h0: "repo_line ''- repo: https://github.com/acme/dangling''
      = Some ''https://github.com/acme/dangling''" by code_simp
  have h1: "repo_line ''  # no revision here'' = None" by code_simp
  have h2: "rev_line ''  # no revision here'' = None" by code_simp
  have h3: "repo_line ''- repo: https://github.com/psf/black''
      = Some ''https://github.com/psf/black''" by code_simp
  have m: "\<forall>l\<in>set [''  # no revision here'']. repo_line l = None \<and> rev_line l = None"
    using h1 h2 by simp
  have n: "normalize_repo_url ''https://github.com/psf/black'' = ''psf/black''" by code_simp
  have r: "parse_lines (None, []) [''- repo: https://github.com/psf/black'', ''  rev: 24.4.0'']
      = (None, [(''psf/black'', ''24.4.0'')])" by code_simp
  from dangling_reference_dropped[OF h0 m h3, of None "[]" "[''  rev: 24.4.0'']"]
  show ?thesis using h0 h1 h2 h3 by (simp add: n r)
qed

text \<open>
  C9, as stated: an identity that occurs more than once, each time with a revision line,
  has exactly one entry in the map. The empty identity of \<^verbatim>\<open>https://gitlab.com/pycqa/flake8/\<close>
  is never bound, so it has no entry, however often it occurs with a revision line.
\<close>

theorem empty_identity_never_bound:
  "splitlines ''- repo: https://gitlab.com/pycqa/flake8/\<newline>  rev: v1\<newline>- repo: https://gitlab.com/pycqa/flake8/\<newline>  rev: v2\<newline>''
     = [''- repo: https://gitlab.com/pycqa/flake8/'', ''  rev: v1'',
        ''- repo: https://gitlab.com/pycqa/flake8/'', ''  rev: v2'']
   \<and> repo_line ''- repo: https://gitlab.com/pycqa/flake8/'' = Some ''https://gitlab.com/pycqa/flake8/''
   \<and> normalize_repo_url ''https://gitlab.com/pycqa/flake8/'' = []
   \<and> rev_line ''  rev: v1'' = Some ''v1'' \<and> rev_line ''  rev: v2'' = Some ''v2''
   \<and> parse_config_text ''- repo: https://gitlab.com/pycqa/flake8/\<newline>  rev: v1\<newline>- repo: https://gitlab.com/pycqa/flake8/\<newline>  rev: v2\<newline>'' = []"
  by code_simp

text \<open>
  C9, amended: if an identity that is not empty occurs in the config with a revision line
  (the revision line follows the reference line, at most lines that are neither in
  between) and no later repository-reference line has this identity, then the map has
  exactly one entry for it, and its value is the revision of this last occurrence,
  whatever the earlier lines bound. The empty identity is never a key of the map.
\<close>

theorem last_occurrence_wins:
  assumes "splitlines content = pre @ [lb] @ gap @ [rb] @ post"
    and "repo_line lb = Some ub" and "normalize_repo_url ub = k" and "k \<noteq> []"
    and "\<forall>l\<in>set gap. repo_line l = None \<and> rev_line l = None"
    and "rev_line rb = Some vb"
    and "\<forall>l\<in>set post. \<forall>u. repo_line l = Some u \<longrightarrow> normalize_repo_url u \<noteq> k"
  shows "dict_get (parse_config_text content) k = Some vb
       \<and> length (filter (\<lambda>e. fst e = k) (parse_config_text content)) = 1
       \<and> [] \<notin> set (dict_keys (parse_config_text content))"
proof -
  obtain c1 t1 where st1: "parse_lines (None, []) pre = (c1, t1)" by (cases "parse_lines (None, []) pre")
  have "parse_lines (None, []) (pre @ [lb] @ gap @ [rb])
      = parse_lines (parse_lines (parse_lines (c1, t1) [lb]) gap) [rb]"
    by (simp only: parse_lines_append st1)
  also have "parse_lines (c1, t1) [lb] = (Some k, t1)"
    using assms(2,3) by (simp add: parse_lines_Cons parse_lines_Nil parse_line_repo)
  also have "parse_lines (Some k, t1) gap = (Some k, t1)"
    using assms(5) by (rule parse_lines_other)
  also have "parse_lines (Some k, t1) [rb] = (None, dict_set t1 k vb)"
    using assms(4,6) by (simp add: parse_lines_Cons parse_lines_Nil parse_line_rev)
  finally have st2: "parse_lines (None, []) (pre @ [lb] @ gap @ [rb]) = (None, dict_set t1 k vb)" .
  have e: "splitlines content = (pre @ [lb] @ gap @ [rb]) @ post"
    using assms(1) by simp
  have fin: "parse_config_text content = snd (parse_lines (None, dict_set t1 k vb) post)"
    by (simp only: parse_config_text_def e parse_lines_append[of _ "pre @ [lb] @ gap @ [rb]" post] st2)
  have "map_of (snd (parse_lines (None, dict_set t1 k vb) post)) k = Some vb"
    using assms(7) by (intro parse_lines_keeps) (simp_all add: dict_set_def update_conv')
  with fin have m: "map_of (parse_config_text content) k = Some vb" by simp
  have "distinct (map fst (parse_config_text content))"
    using parse_config_text_wf[of content] by (simp add: wf_canonical_def)
  moreover have "[] \<notin> set (dict_keys (parse_config_text content))"
    using parse_config_text_wf[of content] by (auto simp: wf_canonical_def dict_keys_def)
  ultimately show ?thesis using filter_key_one[of "parse_config_text content" k vb] m
    by (simp add: dict_get_def)
qed

text \<open>
  The hypotheses of C9 hold of a config that pins \<^verbatim>\<open>psf/black\<close> twice.
\<close>

theorem last_occurrence_wins_witness:
  "splitlines ''- repo: https://github.com/psf/black\<newline>  rev: 24.3.0\<newline>- repo: https://github.com/psf/black.git\<newline>  # pinned\<newline>  rev: 24.4.0\<newline>- repo: https://github.com/pycqa/flake8\<newline>  rev: 7.0.0\<newline>''
     = [''- repo: https://github.com/psf/black'', ''  rev: 24.3.0'']
       @ [''- repo: https://github.com/psf/black.git''] @ [''  # pinned''] @ [''  rev: 24.4.0'']
       @ [''- repo: https://github.com/pycqa/flake8'', ''  rev: 7.0.0'']
   \<and> parse_config_text ''- repo: https://github.com/psf/black\<newline>  rev: 24.3.0\<newline>- repo: https://github.com/psf/black.git\<newline>  # pinned\<newline>  rev: 24.4.0\<newline>- repo: https://github.com/pycqa/flake8\<newline>  rev: 7.0.0\<newline>''
     = [(''psf/black'', ''24.4.0''), (''pycqa/flake8'', ''7.0.0'')]
   \<and> dict_get (parse_config_text ''- repo: https://github.com/psf/black\<newline>  rev: 24.3.0\<newline>- repo: https://github.com/psf/black.git\<newline>  # pinned\<newline>  rev: 24.4.0\<newline>- repo: https://github.com/pycqa/flake8\<newline>  rev: 7.0.0\<newline>'') ''psf/black''
     = Some ''24.4.0''
   \<and> length (filter (\<lambda>e. fst e = ''psf/black'') (parse_config_text ''- repo: https://github.com/psf/black\<newline>  rev: 24.3.0\<newline>- repo: https://github.com/psf/black.git\<newline>  # pinned\<newline>  rev: 24.4.0\<newline>- repo: https://github.com/pycqa/flake8\<newline>  rev: 7.0.0\<newline>'')) = 1"
proof -
  let ?c = "''- repo: https://github.com/psf/black\<newline>  rev: 24.3.0\<newline>- repo: https://github.com/psf/black.git\<newline>  # pinned\<newline>  rev: 24.4.0\<newline>- repo: https://github.com/pycqa/flake8\<newline>  rev: 7.0.0\<newline>''"
  have s: "splitlines ?c
     = [''- repo: https://github.com/psf/black'', ''  rev: 24.3.0'']
       @ [''- repo: https://github.com/psf/black.git''] @ [''  # pinned''] @ [''  rev: 24.4.0'']
       @ [''- repo: https://github.com/pycqa/flake8'', ''  rev: 7.0.0'']" by code_simp
  have p: "parse_config_text ?c = [(''psf/black'', ''24.4.0''), (''pycqa/flake8'', ''7.0.0'')]"
    by code_simp
  have h1: "repo_line ''- repo: https://github.com/psf/black.git''
      = Some ''https://github.com/psf/black.git''" by code_simp
  have h2: "normalize_repo_url ''https://github.com/psf/black.git'' = ''psf/black''" by code_simp
  have h3: "''psf/black'' \<noteq> []" by simp
  have g1: "repo_line ''  # pinned'' = None" by code_simp
  have g2: "rev_line ''  # pinned'' = None" by code_simp
  have h4: "\<forall>l\<in>set [''  # pinned'']. repo_line l = None \<and> rev_line l = None"
    using g1 g2 by simp
  have h5: "rev_line ''  rev: 24.4.0'' = Some ''24.4.0''" by code_simp
  have q1: "repo_line ''- repo: https://github.com/pycqa/flake8''
      = Some ''https://github.com/pycqa/flake8''" by code_simp
  have q2: "normalize_repo_url ''https://github.com/pycqa/flake8'' = ''pycqa/flake8''" by code_simp
  have q3: "repo_line ''  rev: 7.0.0'' = None" by code_simp
  have h6: "\<forall>l\<in>set [''- repo: https://github.com/pycqa/flake8'', ''  rev: 7.0.0''].
      \<forall>u. repo_line l = Some u \<longrightarrow> normalize_repo_url u \<noteq> ''psf/black''"
    using q1 q2 q3 by simp
  from last_occurrence_wins[OF s h1 h2 h3 h4 h5 h6] s p show ?thesis by blast
qed

section \<open>Revisions are non-empty tokens\<close>

text \<open>
  C10: every revision stored in the map of the parser and every revision of a usage record
  is a non-empty string without whitespace; hence the truth value of the revision looked
  up by the reconciler is the membership of the key in the map.
\<close>

theorem revisions_are_tokens:
  "(\<forall>e\<in>set (parse_config_text content). snd e \<noteq> [] \<and> (\<forall>c\<in>set (snd e). \<not> isspace c))
   \<and> (\<forall>u\<in>set (scan_markdown_files files).
         snd (snd u) \<noteq> [] \<and> (\<forall>c\<in>set (snd (snd u)). \<not> isspace c))
   \<and> (truthy (dict_get (parse_config_text content) repo_key)
        \<longleftrightarrow> repo_key \<in> set (dict_keys (parse_config_text content)))"
proof (intro conjI)
  show "\<forall>e\<in>set (parse_config_text content). snd e \<noteq> [] \<and> (\<forall>c\<in>set (snd e). \<not> isspace c)"
    using parse_config_text_wf[of content] by (simp add: wf_canonical_def)
next
  show "\<forall>u\<in>set (scan_markdown_files files).
         snd (snd u) \<noteq> [] \<and> (\<forall>c\<in>set (snd (snd u)). \<not> isspace c)"
    using scan_markdown_files_rev by blast
next
  show "truthy (dict_get (parse_config_text content) repo_key)
        \<longleftrightarrow> repo_key \<in> set (dict_keys (parse_config_text content))"
    by (rule wf_truthy_get[OF parse_config_text_wf])
qed

text \<open>
  C10 at the end-to-end example of the specification: the config pins \<^verbatim>\<open>psf/black\<close> to
  \<^verbatim>\<open>24.4.0\<close>, the guide mentions \<^verbatim>\<open>24.3.0\<close>.
\<close>

theorem revisions_are_tokens_witness:
  "parse_config_text ''- repo: https://github.com/psf/black\<newline>  rev: 24.4.0\<newline>''
     = [(''psf/black'', ''24.4.0'')]
   \<and> scan_markdown_files
        [(''guides/python.md'', ''repo: https://github.com/psf/black\<newline>rev: 24.3.0'')]
     = [(''guides/python.md'', ''psf/black'', ''24.3.0'')]
   \<and> truthy (dict_get
        (parse_config_text ''- repo: https://github.com/psf/black\<newline>  rev: 24.4.0\<newline>'')
        ''psf/black'')
   \<and> \<not> truthy (dict_get
        (parse_config_text ''- repo: https://github.com/psf/black\<newline>  rev: 24.4.0\<newline>'')
        ''black'')"
proof -
  let ?c = "''- repo: https://github.com/psf/black\<newline>  rev: 24.4.0\<newline>''"
  let ?f = "[(''guides/python.md'', ''repo: https://github.com/psf/black\<newline>rev: 24.3.0'')]"
  have p: "parse_config_text ?c = [(''psf/black'', ''24.4.0'')]" by code_simp
  have u: "scan_markdown_files ?f = [(''guides/python.md'', ''psf/black'', ''24.3.0'')]"
    by code_simp
  have a: "truthy (dict_get (parse_config_text ?c) ''psf/black'')"
    using revisions_are_tokens[of ?c ?f "''psf/black''"] by (simp add: p dict_keys_def)
  have b: "\<not> truthy (dict_get (parse_config_text ?c) ''black'')"
    using revisions_are_tokens[of ?c ?f "''black''"] by (simp add: p dict_keys_def)
  from p u a b show ?thesis by blast
qed

section \<open>The reconciler: fuzzy fallback, success and exit status\<close>

text \<open>
  C3: on a map built by the config parser, the fuzzy fallback is attempted if and only if
  the usage's identity is not a key of the map. When attempted it takes the first key, in
  the order of the map, such that one of the two identities is a suffix of the other: if
  there is none only the warning counter is incremented; if the revision of that key
  differs from the usage's, one fuzzy diagnostic is printed, the four lines
  \<^verbatim>\<open>MISMATCH (fuzzy match) in <file>:\<close>, \<^verbatim>\<open>  Tool: <identity> (~= <key>)\<close>,
  \<^verbatim>\<open>  Guide says:  <revision>\<close> and \<^verbatim>\<open>  Config has:  <revision of the key>\<close>, and the
  error counter is incremented; if it is equal nothing is printed and no counter changes.
  When the identity is a key the usage is held against its own revision, with the
  diagnostic \<^verbatim>\<open>MISMATCH in <file>:\<close> on a difference.
\<close>

theorem fuzzy_fallback_first_suffix_match:
  assumes "d = parse_config_text content"
  shows "(fuzzy_attempted d k \<longleftrightarrow> k \<notin> set (dict_keys d))
       \<and> (k \<notin> set (dict_keys d) \<longrightarrow>
            (case List.find (\<lambda>c. suffix c k \<or> suffix k c) (dict_keys d) of
               None \<Rightarrow> reconcile_usage d (out, e, w) (f, k, rv) = Inr (out, e, w + 1)
             | Some c \<Rightarrow> \<exists>crev. dict_get d c = Some crev \<and>
                 reconcile_usage d (out, e, w) (f, k, rv) =
                   (if rv \<noteq> crev
                    then Inr (out @ [''MISMATCH (fuzzy match) in '' @ f @ '':'',
                                     ''  Tool: '' @ k @ '' (~= '' @ c @ '')'',
                                     ''  Guide says:  '' @ rv,
                                     ''  Config has:  '' @ crev],
                              e + 1, w)
                    else Inr (out, e, w))))
       \<and> (k \<in> set (dict_keys d) \<longrightarrow>
            (\<exists>crev. dict_get d k = Some crev \<and>
               reconcile_usage d (out, e, w) (f, k, rv) =
                 (if rv \<noteq> crev
                  then Inr (out @ [''MISMATCH in '' @ f @ '':'',
                                   ''  Tool: '' @ k,
                                   ''  Guide says:  '' @ rv,
                                   ''  Config has:  '' @ crev],
                            e + 1, w)
                  else Inr (out, e, w))))"
proof -
  have wf: "wf_canonical d" unfolding assms by (rule parse_config_text_wf)
  have a: "fuzzy_attempted d k \<longleftrightarrow> k \<notin> set (dict_keys d)"
    by (simp add: fuzzy_attempted_def wf_truthy_get[OF wf])
  have b: "k \<notin> set (dict_keys d) \<longrightarrow>
            (case List.find (\<lambda>c. suffix c k \<or> suffix k c) (dict_keys d) of
               None \<Rightarrow> reconcile_usage d (out, e, w) (f, k, rv) = Inr (out, e, w + 1)
             | Some c \<Rightarrow> \<exists>crev. dict_get d c = Some crev \<and>
                 reconcile_usage d (out, e, w) (f, k, rv) =
                   (if rv \<noteq> crev then Inr (out @ fuzzy_lines f k c rv crev, e + 1, w)
                    else Inr (out, e, w)))"
    using reconcile_usage_fuzzy[OF wf, of k out e w f rv] by (simp only: fuzzy_candidate_def) blast
  have c: "k \<in> set (dict_keys d) \<longrightarrow>
            (\<exists>crev. dict_get d k = Some crev \<and>
               reconcile_usage d (out, e, w) (f, k, rv) =
                 (if rv \<noteq> crev then Inr (out @ mismatch_lines f k rv crev, e + 1, w)
                  else Inr (out, e, w)))"
    using reconcile_usage_exact[OF wf, of k out e w f rv] by blast
  note b' = b[unfolded fuzzy_lines_def]
  note c' = c[unfolded mismatch_lines_def]
  from a b' c' show ?thesis by blast
qed

text \<open>
  C3 on a map with two keys that end in \<^verbatim>\<open>black\<close>: the first in the order of the config
  is taken. The four outcomes with what is printed: a fuzzy mismatch, a fuzzy match, no
  candidate, and an exact mismatch.
\<close>

theorem fuzzy_fallback_first_suffix_match_witness:
  "parse_config_text ''- repo: https://github.com/pycqa/flake8\<newline>  rev: 7.0.0\<newline>- repo: https://github.com/psf/black\<newline>  rev: 24.4.0\<newline>- repo: https://github.com/acme/black\<newline>  rev: 1.0\<newline>''
     = [(''pycqa/flake8'', ''7.0.0''), (''psf/black'', ''24.4.0''), (''acme/black'', ''1.0'')]
   \<and> fuzzy_attempted [(''pycqa/flake8'', ''7.0.0''), (''psf/black'', ''24.4.0''), (''acme/black'', ''1.0'')] ''black''
   \<and> \<not> fuzzy_attempted [(''pycqa/flake8'', ''7.0.0''), (''psf/black'', ''24.4.0''), (''acme/black'', ''1.0'')] ''psf/black''
   \<and> List.find (\<lambda>c. suffix c ''black'' \<or> suffix ''black'' c) [''pycqa/flake8'', ''psf/black'', ''acme/black'']
       = Some ''psf/black''
   \<and> reconcile_usage [(''pycqa/flake8'', ''7.0.0''), (''psf/black'', ''24.4.0''), (''acme/black'', ''1.0'')]
         ([], 0, 0) (''guides/python.md'', ''black'', ''1.0'')
       = Inr ([''MISMATCH (fuzzy match) in guides/python.md:'',
               ''  Tool: black (~= psf/black)'',
               ''  Guide says:  1.0'',
               ''  Config has:  24.4.0''], 1, 0)
   \<and> reconcile_usage [(''pycqa/flake8'', ''7.0.0''), (''psf/black'', ''24.4.0''), (''acme/black'', ''1.0'')]
         ([], 0, 0) (''guides/python.md'', ''black'', ''24.4.0'')
       = Inr ([], 0, 0)
   \<and> reconcile_usage [(''pycqa/flake8'', ''7.0.0''), (''psf/black'', ''24.4.0''), (''acme/black'', ''1.0'')]
         ([], 0, 0) (''guides/python.md'', ''mypy'', ''1.0'')
       = Inr ([], 0, 1)
   \<and> reconcile_usage [(''pycqa/flake8'', ''7.0.0''), (''psf/black'', ''24.4.0''), (''acme/black'', ''1.0'')]
         ([], 0, 0) (''guides/python.md'', ''psf/black'', ''1.0'')
       = Inr ([''MISMATCH in guides/python.md:'',
               ''  Tool: psf/black'',
               ''  Guide says:  1.0'',
               ''  Config has:  24.4.0''], 1, 0)"
proof -
  let ?c = "''- repo: https://github.com/pycqa/flake8\<newline>  rev: 7.0.0\<newline>- repo: https://github.com/psf/black\<newline>  rev: 24.4.0\<newline>- repo: https://github.com/acme/black\<newline>  rev: 1.0\<newline>''"
  let ?d = "[(''pycqa/flake8'', ''7.0.0''), (''psf/black'', ''24.4.0''), (''acme/black'', ''1.0'')]"
  have p: "?d = parse_config_text ?c" by code_simp
  have k: "dict_keys ?d = [''pycqa/flake8'', ''psf/black'', ''acme/black'']"
    by (simp add: dict_keys_def)
  have f: "List.find (\<lambda>c. suffix c ''black'' \<or> suffix ''black'' c)
      [''pycqa/flake8'', ''psf/black'', ''acme/black''] = Some ''psf/black''"
    by (simp add: suffix_to_prefix)
  have f2: "List.find (\<lambda>c. suffix c ''mypy'' \<or> suffix ''mypy'' c)
      [''pycqa/flake8'', ''psf/black'', ''acme/black''] = None"
    by (simp add: suffix_to_prefix)
  have g: "dict_get ?d ''psf/black'' = Some ''24.4.0''" by (simp add: dict_get_def)
  note t1 = fuzzy_fallback_first_suffix_match[OF p, of "''black''" "[]" 0 0 "''guides/python.md''" "''1.0''"]
  note t2 = fuzzy_fallback_first_suffix_match[OF p, of "''psf/black''" "[]" 0 0 "''guides/python.md''" "''1.0''"]
  note t3 = fuzzy_fallback_first_suffix_match[OF p, of "''black''" "[]" 0 0 "''guides/python.md''" "''24.4.0''"]
  note t4 = fuzzy_fallback_first_suffix_match[OF p, of "''mypy''" "[]" 0 0 "''guides/python.md''" "''1.0''"]
  have a: "fuzzy_attempted ?d ''black''" using t1 by (simp add: k)
  have b: "\<not> fuzzy_attempted ?d ''psf/black''" using t2 by (simp add: k)
  have nk: "''black'' \<notin> set (dict_keys ?d)" by (simp add: k)
  have nk2: "''mypy'' \<notin> set (dict_keys ?d)" by (simp add: k)
  have ik: "''psf/black'' \<in> set (dict_keys ?d)" by (simp add: k)
  from t1 nk have "\<exists>crev. dict_get ?d ''psf/black'' = Some crev \<and>
      reconcile_usage ?d ([], 0, 0) (''guides/python.md'', ''black'', ''1.0'') =
        (if ''1.0'' \<noteq> crev
         then Inr ([] @ [''MISMATCH (fuzzy match) in '' @ ''guides/python.md'' @ '':'',
                         ''  Tool: '' @ ''black'' @ '' (~= '' @ ''psf/black'' @ '')'',
                         ''  Guide says:  '' @ ''1.0'',
                         ''  Config has:  '' @ crev], 0 + 1, 0)
         else Inr ([], 0, 0))"
    by (simp only: k f option.case) blast
  then have r1: "reconcile_usage ?d ([], 0, 0) (''guides/python.md'', ''black'', ''1.0'')
       = Inr ([''MISMATCH (fuzzy match) in guides/python.md:'',
               ''  Tool: black (~= psf/black)'',
               ''  Guide says:  1.0'',
               ''  Config has:  24.4.0''], 1, 0)"
    by (auto simp: g)
  from t3 nk have "\<exists>crev. dict_get ?d ''psf/black'' = Some crev \<and>
      reconcile_usage ?d ([], 0, 0) (''guides/python.md'', ''black'', ''24.4.0'') =
        (if ''24.4.0'' \<noteq> crev
         then Inr ([] @ [''MISMATCH (fuzzy match) in '' @ ''guides/python.md'' @ '':'',
                         ''  Tool: '' @ ''black'' @ '' (~= '' @ ''psf/black'' @ '')'',
                         ''  Guide says:  '' @ ''24.4.0'',
                         ''  Config has:  '' @ crev], 0 + 1, 0)
         else Inr ([], 0, 0))"
    by (simp only: k f option.case) blast
  then have r2: "reconcile_usage ?d ([], 0, 0) (''guides/python.md'', ''black'', ''24.4.0'')
       = Inr ([], 0, 0)"
    by (auto simp: g)
  from t4 nk2 have "reconcile_usage ?d ([], 0, 0) (''guides/python.md'', ''mypy'', ''1.0'')
       = Inr ([], 0, 0 + 1)"
    by (simp only: k f2 option.case) blast
  then have r3: "reconcile_usage ?d ([], 0, 0) (''guides/python.md'', ''mypy'', ''1.0'')
       = Inr ([], 0, 1)" by simp
  from t2 ik have "\<exists>crev. dict_get ?d ''psf/black'' = Some crev \<and>
      reconcile_usage ?d ([], 0, 0) (''guides/python.md'', ''psf/black'', ''1.0'') =
        (if ''1.0'' \<noteq> crev
         then Inr ([] @ [''MISMATCH in '' @ ''guides/python.md'' @ '':'',
                         ''  Tool: '' @ ''psf/black'',
                         ''  Guide says:  '' @ ''1.0'',
                         ''  Config has:  '' @ crev], 0 + 1, 0)
         else Inr ([], 0, 0))"
    by blast
  then have r4: "reconcile_usage ?d ([], 0, 0) (''guides/python.md'', ''psf/black'', ''1.0'')
       = Inr ([''MISMATCH in guides/python.md:'',
               ''  Tool: psf/black'',
               ''  Guide says:  1.0'',
               ''  Config has:  24.4.0''], 1, 0)"
    by (auto simp: g)
  show ?thesis
    apply (intro conjI)
    apply (rule p[symmetric])
    apply (rule a)
    apply (rule b)
    apply (rule f)
    apply (rule r1)
    apply (rule r2)
    apply (rule r3)
    apply (rule r4)
    done
qed



text \<open>
  C4: the exit status is 1 when the config file is missing, 1 when the parsed config has
  no entry, 1 when some usage is mismatched (exact or fuzzy), and 0 otherwise, whatever
  the number of unresolved usages.
\<close>

theorem exit_status:
  "snd (main config_path config guides) =
     (case config of
        None \<Rightarrow> 1
      | Some content \<Rightarrow>
          if parse_config_text content = [] then 1
          else if \<exists>u\<in>set (scan_markdown_files guides). mismatched (parse_config_text content) u
          then 1 else 0)"
proof (cases config)
  case None
  then show ?thesis by (simp add: main_def parse_pre_commit_config_def)
next
  case (Some content)
  show ?thesis
  proof (cases "parse_config_text content = []")
    case True
    with Some show ?thesis by (simp add: main_def parse_pre_commit_config_def)
  next
    case False
    let ?d = "parse_config_text content"
    let ?us = "scan_markdown_files guides"
    have wf: "wf_canonical ?d" by (rule parse_config_text_wf)
    define out2 where "out2 =
      [''Validating versions against configs/pre-commit/.pre-commit-config.yaml...'',
       ''Loaded '' @ str_nat (length ?d) @ '' canonical tool versions.'',
       ''Found '' @ str_nat (length ?us) @ '' version references in guides.'']"
    from reconcile_total[OF wf, of out2 0 0 ?us] obtain out' where
      r: "reconcile ?d (out2, 0, 0) ?us =
            Inr (out', length (filter (mismatched ?d) ?us), length (filter (unresolved ?d) ?us))"
      by auto
    have m: "main config_path (Some content) guides =
        summary (out', length (filter (mismatched ?d) ?us), length (filter (unresolved ?d) ?us))"
      using r False
      by (simp add: main_def parse_pre_commit_config_def out2_def Let_def
          del: summary.simps str_nat.simps)
    show ?thesis
    proof (cases "\<exists>u\<in>set ?us. mismatched ?d u")
      case True
      then have "filter (mismatched ?d) ?us \<noteq> []" by (simp add: filter_empty_conv)
      then have "length (filter (mismatched ?d) ?us) \<noteq> 0" by simp
      then have "snd (main config_path (Some content) guides) = 1"
        by (simp add: m del: str_nat.simps)
      with True False Some show ?thesis by simp
    next
      case nm: False
      then have "filter (mismatched ?d) ?us = []" by (simp add: filter_empty_conv)
      then have "snd (main config_path (Some content) guides) = 0"
        by (simp add: m del: str_nat.simps)
      with nm False Some show ?thesis by simp
    qed
  qed
qed

text \<open>
  C4 on a missing config, a config without pins, a mismatched guide and a guide that
  mentions an unknown tool only.
\<close>

theorem exit_status_witness:
  "snd (main ''/repo/configs/pre-commit/.pre-commit-config.yaml'' None []) = 1
   \<and> snd (main ''/repo/configs/pre-commit/.pre-commit-config.yaml'' (Some ''# nothing pinned\<newline>'') []) = 1
   \<and> snd (main ''/repo/configs/pre-commit/.pre-commit-config.yaml''
        (Some ''- repo: https://github.com/psf/black\<newline>  rev: 24.4.0\<newline>'')
        [(''guides/python.md'', ''repo: https://github.com/psf/black\<newline>rev: 24.3.0'')]) = 1
   \<and> snd (main ''/repo/configs/pre-commit/.pre-commit-config.yaml''
        (Some ''- repo: https://github.com/psf/black\<newline>  rev: 24.4.0\<newline>'')
        [(''guides/python.md'', ''repo: https://github.com/python/mypy\<newline>rev: v1.9.0'')]) = 0"
proof -
  let ?p = "''/repo/configs/pre-commit/.pre-commit-config.yaml''"
  let ?c = "''- repo: https://github.com/psf/black\<newline>  rev: 24.4.0\<newline>''"
  let ?g1 = "[(''guides/python.md'', ''repo: https://github.com/psf/black\<newline>rev: 24.3.0'')]"
  let ?g2 = "[(''guides/python.md'', ''repo: https://github.com/python/mypy\<newline>rev: v1.9.0'')]"
  have e: "parse_config_text ''# nothing pinned\<newline>'' = []" by code_simp
  have p: "parse_config_text ?c = [(''psf/black'', ''24.4.0'')]" by code_simp
  have u1: "scan_markdown_files ?g1 = [(''guides/python.md'', ''psf/black'', ''24.3.0'')]"
    by code_simp
  have u2: "scan_markdown_files ?g2 = [(''guides/python.md'', ''python/mypy'', ''v1.9.0'')]"
    by code_simp
  have m1: "mismatched [(''psf/black'', ''24.4.0'')] (''guides/python.md'', ''psf/black'', ''24.3.0'')"
    by code_simp
  have m2: "\<not> mismatched [(''psf/black'', ''24.4.0'')] (''guides/python.md'', ''python/mypy'', ''v1.9.0'')"
    by code_simp
  have a: "snd (main ?p None []) = 1" using exit_status[of ?p None "[]"] by simp
  have b: "snd (main ?p (Some ''# nothing pinned\<newline>'') []) = 1"
    using exit_status[of ?p "Some ''# nothing pinned\<newline>''" "[]"] by (simp add: e)
  have c: "snd (main ?p (Some ?c) ?g1) = 1"
    using exit_status[of ?p "Some ?c" ?g1] m1 by (simp add: p u1)
  have d: "snd (main ?p (Some ?c) ?g2) = 0"
    using exit_status[of ?p "Some ?c" ?g2] m2 by (simp add: p u2)
  from a b c d show ?thesis by blast
qed

section \<open>The document scanner: the blocks it yields\<close>

text \<open>
  C5, as stated: the scanner yields exactly the occurrences of a two-line block, a
  repository-reference line immediately followed (one line break, leading whitespace) by a
  revision line. The whitespace classes of the pattern match line breaks too: two lines
  separated by blank lines yield a usage record although no two-line block occurs.
\<close>

theorem scanner_matches_across_blank_lines:
  "scan_text ''guides/python.md'' ''repo: https://github.com/psf/black\<newline>\<newline>\<newline>rev: 24.3.0\<newline>''
     = [(''guides/python.md'', ''psf/black'', ''24.3.0'')]
   \<and> finditer two_line_block_pattern ''repo: https://github.com/psf/black\<newline>\<newline>\<newline>rev: 24.3.0\<newline>''
     = []"
  by code_simp

text \<open>
  C5, amended: the usage records of a document are, in the order of the text, those of its
  blocks found from left to right without overlap: one record (file path, normalized
  identity of the stripped reference value, revision token) per block, where a block is
  \<^verbatim>\<open>repo:\<close>, whitespace, a reference value without line feed, whitespace that holds at
  least one line feed (so blank lines may separate the two lines), \<^verbatim>\<open>rev:\<close>, whitespace
  and a token without whitespace; the whitespace after \<^verbatim>\<open>repo:\<close> is matched greedily, the
  reference value lazily and the token greedily. The list of blocks exists and is unique.
  The records of the files follow each other in the order of the files.
\<close>

theorem scanner_yields_blocks:
  "(\<exists>recs. block_scan content recs)
   \<and> (\<forall>recs. block_scan content recs \<longrightarrow>
         scan_text md_file content
           = map (\<lambda>(g1, g2). (md_file, normalize_repo_url (strip g1), g2)) recs)
   \<and> scan_markdown_files ((md_file, content) # files)
       = scan_text md_file content @ scan_markdown_files files"
proof -
  let ?recs = "map (\<lambda>gs. (gs ! 0, gs ! 1)) (finditer block_pattern content)"
  have ex: "block_scan content ?recs" by (rule block_scan_finditer)
  have m: "scan_text md_file content
      = map (\<lambda>(g1, g2). (md_file, normalize_repo_url (strip g1), g2)) ?recs"
  proof -
    have "map (\<lambda>gs. (md_file, normalize_repo_url (strip (gs ! 0)), strip (gs ! 1)))
            (finditer block_pattern content)
        = map (\<lambda>gs. (md_file, normalize_repo_url (strip (gs ! 0)), gs ! 1))
            (finditer block_pattern content)"
    proof (rule map_cong[OF refl])
      fix gs assume "gs \<in> set (finditer block_pattern content)"
      from finditer_block_groups[OF this] obtain g1 g2 where
        "gs = [g1, g2]" "\<forall>c\<in>set g2. \<not> isspace c" by blast
      then have "strip (gs ! 1) = gs ! 1" by (simp add: strip_nonspace)
      then show "(md_file, normalize_repo_url (strip (gs ! 0)), strip (gs ! 1))
          = (md_file, normalize_repo_url (strip (gs ! 0)), gs ! 1)" by simp
    qed
    then show ?thesis by (simp add: scan_text_def comp_def)
  qed
  have un: "\<forall>recs. block_scan content recs \<longrightarrow>
         scan_text md_file content
           = map (\<lambda>(g1, g2). (md_file, normalize_repo_url (strip g1), g2)) recs"
  proof (intro allI impI)
    fix recs assume "block_scan content recs"
    from block_scan_unique[OF this ex] have "recs = ?recs" .
    with m show "scan_text md_file content
           = map (\<lambda>(g1, g2). (md_file, normalize_repo_url (strip g1), g2)) recs" by simp
  qed
  have c: "scan_markdown_files ((md_file, content) # files)
       = scan_text md_file content @ scan_markdown_files files"
    by (simp add: scan_markdown_files_def)
  from ex un c show ?thesis by blast
qed

text \<open>
  C5 on a document with two blocks, the first with a blank line inside.
\<close>

theorem scanner_yields_blocks_witness:
  "scan_text ''guides/a.md'' ''- repo: psf/black.git \<newline>\<newline>  rev: 24.3.0 #\<newline>repo: mypy\<newline>rev: 1''
     = [(''guides/a.md'', ''black'', ''24.3.0''), (''guides/a.md'', ''mypy'', ''1'')]
   \<and> (\<exists>recs. block_scan ''- repo: psf/black.git \<newline>\<newline>  rev: 24.3.0 #\<newline>repo: mypy\<newline>rev: 1'' recs
        \<and> map (\<lambda>(g1, g2). (''guides/a.md'', normalize_repo_url (strip g1), g2)) recs
          = [(''guides/a.md'', ''black'', ''24.3.0''), (''guides/a.md'', ''mypy'', ''1'')])"
proof -
  let ?c = "''- repo: psf/black.git \<newline>\<newline>  rev: 24.3.0 #\<newline>repo: mypy\<newline>rev: 1''"
  let ?out = "[(''guides/a.md'', ''black'', ''24.3.0''), (''guides/a.md'', ''mypy'', ''1'')]"
  have e: "scan_text ''guides/a.md'' ?c = ?out"
    by code_simp
  from scanner_yields_blocks[of ?c "''guides/a.md''" "[]"] obtain recs where
    r: "block_scan ?c recs"
    and m: "scan_text ''guides/a.md'' ?c
      = map (\<lambda>(g1, g2). (''guides/a.md'', normalize_repo_url (strip g1), g2)) recs"
    by blast
  from m have m': "map (\<lambda>(g1, g2). (''guides/a.md'', normalize_repo_url (strip g1), g2)) recs = ?out"
    by (simp only: e)
  show ?thesis
    apply (rule conjI[OF e])
    apply (rule exI[of _ recs])
    apply (rule conjI[OF r m'])
    done
qed

end
